theory Spec2Isabelle
  imports Main "HOL-Library.Word"
begin

section \<open>JavaScript strings\<close>

text \<open>
  A JavaScript string is a sequence of 16-bit code units; \<open>length\<close> counts code units.
  A regular expression built with the \<open>u\<close> flag reads the string as code points: a lead
  surrogate followed by a trail surrogate is one code point of two code units, every
  other code unit is a code point of its own. A code point is kept here as the list of
  its code units, so that concatenating the code points gives the string back.
\<close>

type_synonym codeunit = "16 word"
type_synonym jsstring = "codeunit list"

definition utf16 :: "string \<Rightarrow> jsstring" where
  "utf16 s = map of_char s"

definition isLeadSurrogate :: "codeunit \<Rightarrow> bool" where
  "isLeadSurrogate u = (0xD800 \<le> u \<and> u \<le> 0xDBFF)"

definition isTrailSurrogate :: "codeunit \<Rightarrow> bool" where
  "isTrailSurrogate u = (0xDC00 \<le> u \<and> u \<le> 0xDFFF)"

fun codePoints :: "jsstring \<Rightarrow> jsstring list" where
  "codePoints [] = []"
| "codePoints [u] = [[u]]"
| "codePoints (u # v # rest) =
     (if isLeadSurrogate u \<and> isTrailSurrogate v then [u, v] # codePoints rest
      else [u] # codePoints (v # rest))"

text \<open>
  The offsets at which a code point of the text starts, and the offset of its end:
  the places where a global \<open>u\<close>-flag scan can stand.
\<close>

fun boundariesFrom :: "jsstring list \<Rightarrow> nat \<Rightarrow> nat list" where
  "boundariesFrom [] i = [i]"
| "boundariesFrom (c # cs) i = i # boundariesFrom cs (i + length c)"

definition codePointBoundaries :: "jsstring \<Rightarrow> nat list" where
  "codePointBoundaries s = boundariesFrom (codePoints s) 0"

section \<open>Text projection\<close>

text \<open>
  The items of a range are text nodes, text proxies (a slice of a text node, which is
  what a walk over a range yields for text) and elements. Attributes are left out:
  none of the functions below reads them.
\<close>

datatype node =
    Text jsstring
  | TextProxy jsstring
  | Element string "node list"

fun isText :: "node \<Rightarrow> bool" where
  "isText (Text d) = True"
| "isText (TextProxy d) = False"
| "isText (Element n cs) = False"

fun isTextProxy :: "node \<Rightarrow> bool" where
  "isTextProxy (Text d) = False"
| "isTextProxy (TextProxy d) = True"
| "isTextProxy (Element n cs) = False"

text \<open>
  \<open>node.data\<close>. An element has no such property; JavaScript appends the text
  \<open>undefined\<close> for it. \<open>rangeToText\<close> never reads it of an element.
\<close>

fun data :: "node \<Rightarrow> jsstring" where
  "data (Text d) = d"
| "data (TextProxy d) = d"
| "data (Element n cs) = utf16 ''undefined''"

text \<open>
  \<open>rangeToText(range)\<close>, from the items of the range (\<open>Array.from(range.getItems())\<close>):
  a left fold that appends a new line character for an item that is neither a text
  node nor a text proxy, and the item's data otherwise.
\<close>

definition rangeToText :: "node list \<Rightarrow> jsstring" where
  "rangeToText items =
     foldl (\<lambda>rangeText node.
              if \<not> (isText node \<or> isTextProxy node) then rangeText @ [0x0A]
              else rangeText @ data node)
       [] items"

text \<open>
  Modelled from the spec: tree positions and the walk over a range belong to the
  editing engine, which is not among the sources. Inside one parent, a text node takes
  one offset per code unit of its data and an element takes one offset; a range from
  offset \<open>a\<close> to offset \<open>b\<close> has length \<open>b - a\<close> in tree-position units. The walk yields
  a text proxy for the part of each text node inside the range, and each element
  inside the range followed by everything below it.
\<close>

fun offsetSize :: "node \<Rightarrow> nat" where
  "offsetSize (Text d) = length d"
| "offsetSize (TextProxy d) = length d"
| "offsetSize (Element n cs) = 1"

definition maxOffset :: "node list \<Rightarrow> nat" where
  "maxOffset cs = sum_list (map offsetSize cs)"

fun walkBelow :: "node \<Rightarrow> node list" where
  "walkBelow (Text d) = [TextProxy d]"
| "walkBelow (TextProxy d) = [TextProxy d]"
| "walkBelow (Element n cs) = Element n cs # concat (map walkBelow cs)"

fun getItems :: "node list \<Rightarrow> nat \<Rightarrow> nat \<Rightarrow> node list" where
  "getItems [] a b = []"
| "getItems (c # cs) a b =
     (let k = offsetSize c in
      if k \<le> a then getItems cs (a - k) (b - k)
      else if b \<le> a then []
      else (case c of
              Element n ks \<Rightarrow> walkBelow c @ getItems cs 0 (b - k)
            | Text d \<Rightarrow> TextProxy (take (min b k - a) (drop a d)) # getItems cs 0 (b - k)
            | TextProxy d \<Rightarrow> TextProxy (take (min b k - a) (drop a d)) # getItems cs 0 (b - k)))"

text \<open>
  The schema the projection assumes: the children of a block are text and the
  line-break element \<open>softBreak\<close>, which is empty.
\<close>

fun inAssumedSchema :: "node \<Rightarrow> bool" where
  "inAssumedSchema (Text d) = True"
| "inAssumedSchema (TextProxy d) = True"
| "inAssumedSchema (Element n cs) = (n = ''softBreak'' \<and> cs = [])"

section \<open>The built-in find callback\<close>

text \<open>
  \<open>new RegExp(searchTerm, "igu")\<close> and \<open>text.matchAll(regExp)\<close> belong to the JavaScript
  engine. The fragment of the pattern language modelled here is a sequence of atoms,
  each either a pattern character (an ordinary code point, compared after case folding
  because of the \<open>i\<close> flag) or the dot (any code point that is not a line terminator).
  A search term that holds any other syntax character is outside the fragment: the
  constructor is not modelled for it and the result is \<open>None\<close>.
\<close>

datatype atom = PatternCharacter jsstring | Dot

definition dotChar :: jsstring where
  "dotChar = [0x2E]"

definition syntaxCharacters :: "jsstring list" where
  \<comment> \<open>\<open>^ $ \ . * + ? ( ) [ ] { } |\<close>\<close>
  "syntaxCharacters =
     [[0x5E], [0x24], [0x5C], [0x2E], [0x2A], [0x2B], [0x3F],
      [0x28], [0x29], [0x5B], [0x5D], [0x7B], [0x7D], [0x7C]]"

definition lineTerminators :: "jsstring list" where
  "lineTerminators = [[0x0A], [0x0D], [0x2028], [0x2029]]"

fun parsePattern :: "jsstring list \<Rightarrow> atom list option" where
  "parsePattern [] = Some []"
| "parsePattern (c # cs) =
     (if c = dotChar then map_option (\<lambda>as. Dot # as) (parsePattern cs)
      else if c \<in> set syntaxCharacters then None
      else map_option (\<lambda>as. PatternCharacter c # as) (parsePattern cs))"

definition RegExp_igu :: "jsstring \<Rightarrow> atom list option" where
  "RegExp_igu source = parsePattern (codePoints source)"

text \<open>
  The case folding of the \<open>i\<close> and \<open>u\<close> flags (Unicode simple case folding) is a table of
  the JavaScript engine; the matcher takes it as the parameter \<open>canon\<close>.
\<close>

fun matchAtom :: "(jsstring \<Rightarrow> jsstring) \<Rightarrow> atom \<Rightarrow> jsstring \<Rightarrow> bool" where
  "matchAtom canon (PatternCharacter p) c = (canon p = canon c)"
| "matchAtom canon Dot c = (c \<notin> set lineTerminators)"

text \<open>
  One attempt at the current place: the code points matched and the code points left,
  or \<open>None\<close> when the pattern does not match here.
\<close>

fun matchHere ::
  "(jsstring \<Rightarrow> jsstring) \<Rightarrow> atom list \<Rightarrow> jsstring list \<Rightarrow> (jsstring list \<times> jsstring list) option"
where
  "matchHere canon [] cs = Some ([], cs)"
| "matchHere canon (a # as) [] = None"
| "matchHere canon (a # as) (c # cs) =
     (if matchAtom canon a c
      then map_option (\<lambda>(m, rest). (c # m, rest)) (matchHere canon as cs)
      else None)"

lemma matchHere_append:
  "matchHere canon as cs = Some (m, rest) \<Longrightarrow> cs = m @ rest"
proof (induction as arbitrary: cs m rest)
  case Nil
  then show ?case by simp
next
  case (Cons a as)
  then show ?case
    by (cases cs) (auto split: if_splits)
qed

text \<open>
  The global scan of \<open>matchAll\<close>, from the code-unit offset \<open>i\<close> with the code points
  \<open>cs\<close> still ahead. After a failed attempt, and after an empty match, the scan moves on
  by one code point; after a non-empty match it goes on where the match ended. At the
  end of the text one last attempt is made. A match is its offset and the matched text.
\<close>

function matchAllFrom ::
  "(jsstring \<Rightarrow> jsstring) \<Rightarrow> atom list \<Rightarrow> jsstring list \<Rightarrow> nat \<Rightarrow> (nat \<times> jsstring) list"
where
  "matchAllFrom canon re cs i =
     (case matchHere canon re cs of
        None \<Rightarrow>
          (case cs of [] \<Rightarrow> [] | c # cs' \<Rightarrow> matchAllFrom canon re cs' (i + length c))
      | Some (m, rest) \<Rightarrow>
          (if concat m = []
           then (i, []) #
             (case cs of [] \<Rightarrow> [] | c # cs' \<Rightarrow> matchAllFrom canon re cs' (i + length c))
           else (i, concat m) # matchAllFrom canon re rest (i + length (concat m))))"
  by pat_completeness auto
termination
proof (relation "measure (\<lambda>(canon, re, cs, i). length cs)", goal_cases)
  case 1
  show ?case by simp
next
  case (2 canon re cs i c cs')
  then show ?case by simp
next
  case (3 canon re cs i x2 m rest c cs')
  then show ?case by simp
next
  case (4 canon re cs i x2 m rest)
  then have "cs = m @ rest" by (auto dest: matchHere_append)
  moreover from 4 have "m \<noteq> []" by auto
  ultimately show ?case by simp
qed

definition matchAll ::
  "(jsstring \<Rightarrow> jsstring) \<Rightarrow> jsstring \<Rightarrow> atom list \<Rightarrow> (nat \<times> jsstring) list" where
  "matchAll canon txt regExp = matchAllFrom canon regExp (codePoints txt) 0"

record foundItem =
  found_label :: jsstring
  found_start :: nat
  found_end :: nat

text \<open>\<open>regexpMatchToFindResult(matchResult)\<close>: \<open>matchResult[0]\<close> and \<open>matchResult.index\<close>.\<close>

definition regexpMatchToFindResult :: "nat \<times> jsstring \<Rightarrow> foundItem" where
  "regexpMatchToFindResult matchResult =
     \<lparr> found_label = snd matchResult,
       found_start = fst matchResult,
       found_end = fst matchResult + length (snd matchResult) \<rparr>"

text \<open>
  \<open>findByTextCallback(searchTerm)\<close> builds the regular expression once and returns the
  callback; the callback is applied here to the text of one block. \<open>None\<close>: the search
  term is outside the modelled pattern fragment.
\<close>

definition findByTextCallback ::
  "(jsstring \<Rightarrow> jsstring) \<Rightarrow> jsstring \<Rightarrow> jsstring \<Rightarrow> foundItem list option" where
  "findByTextCallback canon searchTerm txt =
     (case RegExp_igu searchTerm of
        None \<Rightarrow> None
      | Some regExp \<Rightarrow> Some (map regexpMatchToFindResult (matchAll canon txt regExp)))"

text \<open>
  The part of the case folding table on Basic Latin: a capital letter folds to its
  small letter, every other code point of that block to itself. Code points outside
  Basic Latin are left as they are, so this table stands for the engine's only on
  texts and search terms of Basic Latin.
\<close>

definition foldBasicLatin :: "jsstring \<Rightarrow> jsstring" where
  "foldBasicLatin c =
     (case c of
        [u] \<Rightarrow> if 0x41 \<le> u \<and> u \<le> 0x5A then [u + 0x20] else [u]
      | _ \<Rightarrow> c)"

definition hasSyntaxCharacter :: "jsstring \<Rightarrow> bool" where
  "hasSyntaxCharacter searchTerm =
     (\<exists>c \<in> set (codePoints searchTerm). c \<in> set syntaxCharacters)"

text \<open>
  Literal matching in the words of the specification: the occurrences of the search
  text in the text, compared code point by code point without regard to case, from
  left to right and without overlap; an empty search text has no occurrence.
\<close>

definition occursAt :: "(jsstring \<Rightarrow> jsstring) \<Rightarrow> jsstring list \<Rightarrow> jsstring list \<Rightarrow> bool" where
  "occursAt canon term_cps cs =
     (length term_cps \<le> length cs \<and>
      map canon (take (length term_cps) cs) = map canon term_cps)"

function literalFrom ::
  "(jsstring \<Rightarrow> jsstring) \<Rightarrow> jsstring list \<Rightarrow> jsstring list \<Rightarrow> nat \<Rightarrow> foundItem list"
where
  "literalFrom canon term_cps [] i = []"
| "literalFrom canon term_cps (c # cs) i =
     (if term_cps \<noteq> [] \<and> occursAt canon term_cps (c # cs)
      then (let hit = concat (take (length term_cps) (c # cs)) in
            \<lparr> found_label = hit, found_start = i, found_end = i + length hit \<rparr> #
            literalFrom canon term_cps (drop (length term_cps) (c # cs)) (i + length hit))
      else literalFrom canon term_cps cs (i + length c))"
  by pat_completeness auto
termination
  by (relation "measure (\<lambda>(canon, term_cps, cs, i). length cs)") auto

definition literalMatches ::
  "(jsstring \<Rightarrow> jsstring) \<Rightarrow> jsstring \<Rightarrow> jsstring \<Rightarrow> foundItem list" where
  "literalMatches canon searchText txt =
     literalFrom canon (codePoints searchText) (codePoints txt) 0"

section \<open>Positions, markers and the result store\<close>

text \<open>
  Modelled from the spec: positions, ranges and markers belong to the editing engine,
  which is not among the sources. A position is a root and a path of offsets from that
  root; one position is before another when both are in the same root and its path
  comes first (a path that is a proper prefix of another comes first). A marker is a
  name bound to a range; the marker collection of the model is a map from names to
  ranges, and a marker that was removed has no range any more.
\<close>

record position =
  pos_root :: string
  pos_path :: "nat list"

fun pathBefore :: "nat list \<Rightarrow> nat list \<Rightarrow> bool" where
  "pathBefore [] [] = False"
| "pathBefore [] (y # ys) = True"
| "pathBefore (x # xs) [] = False"
| "pathBefore (x # xs) (y # ys) = (x < y \<or> (x = y \<and> pathBefore xs ys))"

definition isBefore :: "position \<Rightarrow> position \<Rightarrow> bool" where
  "isBefore p q = (pos_root p = pos_root q \<and> pathBefore (pos_path p) (pos_path q))"

record modelRange =
  range_start :: position
  range_end :: position

type_synonym markers = "string \<rightharpoonup> modelRange"

datatype error =
    TypeError
  | MarkerDestroyed
  | AddMarkerExists
  | RemoveMarkerNoMarker
  | CollectionInvalidIndex
  | CollectionItemExists
  | CollectionRemove404
  | HostError

text \<open>
  Modelled from the spec: \<open>marker.getRange()\<close> and \<open>marker.getStart()\<close> of the marker
  with the given name; asking a removed marker is an error.
\<close>

definition getRange :: "markers \<Rightarrow> string \<Rightarrow> error + modelRange" where
  "getRange ms name = (case ms name of None \<Rightarrow> Inl MarkerDestroyed | Some r \<Rightarrow> Inr r)"

definition getStart :: "markers \<Rightarrow> string \<Rightarrow> error + position" where
  "getStart ms name =
     (case ms name of None \<Rightarrow> Inl MarkerDestroyed | Some r \<Rightarrow> Inr (range_start r))"

text \<open>
  A found result: \<open>{ id, label, marker }\<close>. The marker is held by its name, which is
  how the model finds the marker's present range.
\<close>

record findResult =
  res_id :: string
  res_label :: jsstring
  res_marker :: string

text \<open>
  Modelled from the spec: the result store is the collection class of the utilities
  package, which is not among the sources: an insertion-ordered sequence of results
  that rejects a second item of the same identity, inserts at a given index and removes
  by identity. Removing an identity that is not stored is an error, which is why the
  new edition asks \<open>has\<close> first.
\<close>

definition collection_has :: "findResult list \<Rightarrow> string \<Rightarrow> bool" where
  "collection_has rs ident = (ident \<in> set (map res_id rs))"

definition collection_add ::
  "findResult list \<Rightarrow> findResult \<Rightarrow> nat \<Rightarrow> error + findResult list" where
  "collection_add rs item index =
     (if length rs < index then Inl CollectionInvalidIndex
      else if collection_has rs (res_id item) then Inl CollectionItemExists
      else Inr (take index rs @ item # drop index rs))"

definition collection_remove :: "findResult list \<Rightarrow> string \<Rightarrow> error + findResult list" where
  "collection_remove rs ident =
     (if collection_has rs ident then Inr (filter (\<lambda>r. res_id r \<noteq> ident) rs)
      else Inl CollectionRemove404)"

text \<open>
  \<open>findInsertIndex(resultsList, markerToInsert)\<close>: \<open>find\<close> visits the results in order
  and stops at the first whose marker starts after the start of the marker to insert;
  the index of that result is returned, or the length of the list when there is none.
  The index counted here is the index \<open>getIndex\<close> gives, since a collection holds no
  item twice.
\<close>

fun findInsertIndexFrom ::
  "markers \<Rightarrow> findResult list \<Rightarrow> string \<Rightarrow> nat \<Rightarrow> error + nat" where
  "findInsertIndexFrom ms [] markerToInsert i = Inr i"
| "findInsertIndexFrom ms (r # rs) markerToInsert i =
     (case getStart ms markerToInsert of
        Inl e \<Rightarrow> Inl e
      | Inr s \<Rightarrow>
          (case getStart ms (res_marker r) of
             Inl e \<Rightarrow> Inl e
           | Inr t \<Rightarrow>
               if isBefore s t then Inr i
               else findInsertIndexFrom ms rs markerToInsert (Suc i)))"

definition findInsertIndex :: "markers \<Rightarrow> findResult list \<Rightarrow> string \<Rightarrow> error + nat" where
  "findInsertIndex ms resultsList markerToInsert =
     findInsertIndexFrom ms resultsList markerToInsert 0"

section \<open>The editor state and transactional writes\<close>

text \<open>
  The state the search engine works on: the markers of the model, the result store,
  the number of identifiers drawn so far, and a journal of what was done in which
  order.
\<close>

datatype event =
    ChangeBegin
  | ChangeEnd
  | MarkerAdded string
  | MarkerRemoved string
  | ResultAdded string nat
  | ResultRemoved string

record engine =
  markersOf :: markers
  resultsOf :: "findResult list"
  uidCount :: nat
  journal :: "event list"

definition logEvent :: "event \<Rightarrow> engine \<Rightarrow> engine" where
  "logEvent e st = st\<lparr> journal := journal st @ [e] \<rparr>"

text \<open>
  Modelled from the spec: \<open>model.change(callback)\<close>, the transactional write of the
  engine, which is not among the sources. It brackets the effects of its callback in
  the journal; an exception of the callback leaves the bracket open and is the result.
\<close>

definition modelChange :: "(engine \<Rightarrow> error + engine) \<Rightarrow> engine \<Rightarrow> error + engine" where
  "modelChange callback st =
     (case callback (logEvent ChangeBegin st) of
        Inl e \<Rightarrow> Inl e
      | Inr st' \<Rightarrow> Inr (logEvent ChangeEnd st'))"

text \<open>
  Modelled from the spec: the writer of the engine, which is not among the sources.
  Adding a marker under a name in use and removing a marker that does not exist are
  errors.
\<close>

definition writer_addMarker :: "string \<Rightarrow> modelRange \<Rightarrow> engine \<Rightarrow> error + engine" where
  "writer_addMarker name r st =
     (if markersOf st name \<noteq> None then Inl AddMarkerExists
      else Inr (logEvent (MarkerAdded name) (st\<lparr> markersOf := (markersOf st)(name \<mapsto> r) \<rparr>)))"

definition writer_removeMarker :: "string \<Rightarrow> engine \<Rightarrow> error + engine" where
  "writer_removeMarker name st =
     (if markersOf st name = None then Inl RemoveMarkerNoMarker
      else Inr (logEvent (MarkerRemoved name) (st\<lparr> markersOf := (markersOf st)(name := None) \<rparr>)))"

definition results_add :: "findResult \<Rightarrow> nat \<Rightarrow> engine \<Rightarrow> error + engine" where
  "results_add item index st =
     (case collection_add (resultsOf st) item index of
        Inl e \<Rightarrow> Inl e
      | Inr rs \<Rightarrow> Inr (logEvent (ResultAdded (res_id item) index) (st\<lparr> resultsOf := rs \<rparr>)))"

definition results_remove :: "string \<Rightarrow> engine \<Rightarrow> error + engine" where
  "results_remove ident st =
     (case collection_remove (resultsOf st) ident of
        Inl e \<Rightarrow> Inl e
      | Inr rs \<Rightarrow> Inr (logEvent (ResultRemoved ident) (st\<lparr> resultsOf := rs \<rparr>)))"

section \<open>Searching a range\<close>

text \<open>
  An element met by the walk over a range: where it is, and its children. The walk
  gives one value per step, of the type \<open>elementStart\<close>, \<open>elementEnd\<close> or \<open>text\<close>.
\<close>

record element =
  el_root :: string
  el_path :: "nat list"
  el_name :: string
  el_children :: "node list"

datatype walkerValue =
    ElementStart element
  | ElementEnd element
  | TextValue jsstring

text \<open>
  A change of the differ (its name is undefined for an attribute change), with the
  parent and the node after its position; and a changed marker with its new range,
  which is null when the marker was removed. Nodes are referred to by values of the
  type \<open>'n\<close>; a set of nodes only compares them.
\<close>

record 'n change =
  ch_name :: "string option"
  ch_type :: string
  ch_position :: position
  ch_parent :: 'n
  ch_nodeAfter :: "'n option"

record changedMarker =
  cm_name :: string
  cm_newRange :: "modelRange option"

text \<open>
  What the functions below ask of the engine, taken as parameters: the schema, the
  differ, the queries on the marker collection, the ranges in and on a node, the walk
  over a range, and the identifiers \<open>uid()\<close> draws (the \<open>k\<close>-th call gives \<open>uid k\<close>).
  A null node is \<open>None\<close>; a call that may be given one says what it does with it.
\<close>

record 'n host =
  schema_isInline :: "'n option \<Rightarrow> error + bool"
  schema_checkChild_text :: "element \<Rightarrow> bool"
  getChanges :: "'n change list"
  getChangedMarkers :: "changedMarker list"
  getMarkersAtPosition :: "markers \<Rightarrow> position \<Rightarrow> string list"
  getMarkersIntersectingRange :: "markers \<Rightarrow> modelRange \<Rightarrow> string list"
  createRangeIn :: "'n option \<Rightarrow> error + modelRange"
  createRangeOn :: "'n option \<Rightarrow> error + modelRange"
  rangeValues :: "modelRange \<Rightarrow> walkerValue list"
  uid :: "nat \<Rightarrow> string"

text \<open>
  Modelled from the spec: \<open>writer.createPositionAt(item, offset)\<close>, the position at the
  given offset inside the element.
\<close>

definition createPositionAt :: "element \<Rightarrow> nat \<Rightarrow> position" where
  "createPositionAt item offset = \<lparr> pos_root = el_root item, pos_path = el_path item @ [offset] \<rparr>"

text \<open>
  The body of \<open>foundItems.forEach\<close> in \<open>updateFindResultFromRange\<close>, inside its
  \<open>model.change\<close>: draw an identifier, add the marker, find the index, add the result.
\<close>

definition addFoundItem :: "'n host \<Rightarrow> element \<Rightarrow> foundItem \<Rightarrow> engine \<Rightarrow> error + engine" where
  "addFoundItem H item foundItem st =
     (let resultId = ''findResult:'' @ uid H (uidCount st);
          st1 = st\<lparr> uidCount := Suc (uidCount st) \<rparr>
      in case writer_addMarker resultId
                \<lparr> range_start = createPositionAt item (found_start foundItem),
                  range_end = createPositionAt item (found_end foundItem) \<rparr> st1 of
           Inl e \<Rightarrow> Inl e
         | Inr st2 \<Rightarrow>
             (case findInsertIndex (markersOf st2) (resultsOf st2) resultId of
                Inl e \<Rightarrow> Inl e
              | Inr index \<Rightarrow>
                  results_add
                    \<lparr> res_id = resultId, res_label = found_label foundItem,
                      res_marker = resultId \<rparr>
                    index st2))"

fun addFoundItems :: "'n host \<Rightarrow> element \<Rightarrow> foundItem list \<Rightarrow> engine \<Rightarrow> error + engine" where
  "addFoundItems H item [] st = Inr st"
| "addFoundItems H item (foundItem # foundItems) st =
     (case modelChange (addFoundItem H item foundItem) st of
        Inl e \<Rightarrow> Inl e
      | Inr st' \<Rightarrow> addFoundItems H item foundItems st')"

text \<open>
  \<open>updateFindResultFromRange(range, model, findCallback, results)\<close>. The callback gets
  the element and the text of the range in it; a callback that returns null gives
  \<open>None\<close>, and the element is skipped.
\<close>

type_synonym findCallback = "element \<Rightarrow> jsstring \<Rightarrow> foundItem list option"

fun updateFindResultFromValues ::
  "'n host \<Rightarrow> findCallback \<Rightarrow> walkerValue list \<Rightarrow> engine \<Rightarrow> error + engine" where
  "updateFindResultFromValues H findCallback [] st = Inr st"
| "updateFindResultFromValues H findCallback (ElementStart item # vs) st =
     (if schema_checkChild_text H item
      then (case findCallback item
                   (rangeToText (getItems (el_children item) 0 (maxOffset (el_children item)))) of
              None \<Rightarrow> updateFindResultFromValues H findCallback vs st
            | Some foundItems \<Rightarrow>
                (case addFoundItems H item foundItems st of
                   Inl e \<Rightarrow> Inl e
                 | Inr st' \<Rightarrow> updateFindResultFromValues H findCallback vs st'))
      else updateFindResultFromValues H findCallback vs st)"
| "updateFindResultFromValues H findCallback (ElementEnd item # vs) st =
     updateFindResultFromValues H findCallback vs st"
| "updateFindResultFromValues H findCallback (TextValue d # vs) st =
     updateFindResultFromValues H findCallback vs st"

definition updateFindResultFromRange ::
  "'n host \<Rightarrow> findCallback \<Rightarrow> modelRange \<Rightarrow> engine \<Rightarrow> error + engine" where
  "updateFindResultFromRange H findCallback r st =
     updateFindResultFromValues H findCallback (rangeValues H r) st"

text \<open>
  The order of the result store: every stored result has a live marker, and no result
  stands after one whose marker starts later than its own.
\<close>

definition startsInOrder :: "markers \<Rightarrow> findResult \<Rightarrow> findResult \<Rightarrow> bool" where
  "startsInOrder ms a b =
     (case ms (res_marker a) of
        None \<Rightarrow> False
      | Some ra \<Rightarrow>
          (case ms (res_marker b) of
             None \<Rightarrow> False
           | Some rb \<Rightarrow> \<not> isBefore (range_start rb) (range_start ra)))"

definition storeSorted :: "markers \<Rightarrow> findResult list \<Rightarrow> bool" where
  "storeSorted ms rs =
     (list_all (\<lambda>r. ms (res_marker r) \<noteq> None) rs \<and> sorted_wrt (startsInOrder ms) rs)"

section \<open>Reacting to document changes\<close>

text \<open>
  \<open>Set.prototype.add\<close>: a set keeps its members in the order they were first added.
\<close>

definition setAdd :: "'a list \<Rightarrow> 'a \<Rightarrow> 'a list" where
  "setAdd s x = (if x \<in> set s then s else s @ [x])"

text \<open>
  The first loop of \<open>onDocumentChange\<close>, the same in both editions: for a change of
  text or at an inline node, the parent becomes a changed node and the markers at the
  position of the change are invalidated; for any other insertion the inserted node
  becomes a changed node. The schema is asked only when the change is not of text.
\<close>

fun collectChanges ::
  "'n host \<Rightarrow> markers \<Rightarrow> 'n change list \<Rightarrow> 'n option list \<Rightarrow> string list \<Rightarrow>
   error + ('n option list \<times> string list)" where
  "collectChanges H ms [] changedNodes removedMarkers = Inr (changedNodes, removedMarkers)"
| "collectChanges H ms (change # changes) changedNodes removedMarkers =
     (case (if ch_name change = Some ''$text'' then Inr True
            else schema_isInline H (ch_nodeAfter change)) of
        Inl e \<Rightarrow> Inl e
      | Inr inline \<Rightarrow>
          if inline
          then collectChanges H ms changes
                 (setAdd changedNodes (Some (ch_parent change)))
                 (foldl setAdd removedMarkers (getMarkersAtPosition H ms (ch_position change)))
          else if ch_type change = ''insert''
          then collectChanges H ms changes (setAdd changedNodes (ch_nodeAfter change))
                 removedMarkers
          else collectChanges H ms changes changedNodes removedMarkers)"

text \<open>
  The second loop, over the changed markers. The legacy edition reads
  \<open>newRange.start\<close> of every changed marker, which is a type error for a null range;
  the new edition tests \<open>newRange\<close> first.
\<close>

fun collectGraveyard_legacy :: "changedMarker list \<Rightarrow> string list \<Rightarrow> error + string list" where
  "collectGraveyard_legacy [] removedMarkers = Inr removedMarkers"
| "collectGraveyard_legacy (m # ms) removedMarkers =
     (case cm_newRange m of
        None \<Rightarrow> Inl TypeError
      | Some newRange \<Rightarrow>
          if pos_root (range_start newRange) = ''$graveyard''
          then collectGraveyard_legacy ms (setAdd removedMarkers (cm_name m))
          else collectGraveyard_legacy ms removedMarkers)"

definition inGraveyard :: "changedMarker \<Rightarrow> bool" where
  "inGraveyard m =
     (case cm_newRange m of
        None \<Rightarrow> False
      | Some newRange \<Rightarrow> pos_root (range_start newRange) = ''$graveyard'')"

fun collectGraveyard_new :: "changedMarker list \<Rightarrow> string list \<Rightarrow> error + string list" where
  "collectGraveyard_new [] removedMarkers = Inr removedMarkers"
| "collectGraveyard_new (m # ms) removedMarkers =
     (if inGraveyard m
      then collectGraveyard_new ms (setAdd removedMarkers (cm_name m))
      else collectGraveyard_new ms removedMarkers)"

text \<open>The third loop: the markers that intersect the range in a changed node.\<close>

fun collectIntersecting ::
  "'n host \<Rightarrow> markers \<Rightarrow> 'n option list \<Rightarrow> string list \<Rightarrow> error + string list" where
  "collectIntersecting H ms [] removedMarkers = Inr removedMarkers"
| "collectIntersecting H ms (node # nodes) removedMarkers =
     (case createRangeIn H node of
        Inl e \<Rightarrow> Inl e
      | Inr r \<Rightarrow>
          collectIntersecting H ms nodes
            (foldl setAdd removedMarkers (getMarkersIntersectingRange H ms r)))"

definition collectInvalidated_legacy ::
  "'n host \<Rightarrow> markers \<Rightarrow> error + ('n option list \<times> string list)" where
  "collectInvalidated_legacy H ms =
     (case collectChanges H ms (getChanges H) [] [] of
        Inl e \<Rightarrow> Inl e
      | Inr (changedNodes, removed1) \<Rightarrow>
          (case collectGraveyard_legacy (getChangedMarkers H) removed1 of
             Inl e \<Rightarrow> Inl e
           | Inr removed2 \<Rightarrow>
               (case collectIntersecting H ms changedNodes removed2 of
                  Inl e \<Rightarrow> Inl e
                | Inr removedMarkers \<Rightarrow> Inr (changedNodes, removedMarkers))))"

definition collectInvalidated_new ::
  "'n host \<Rightarrow> markers \<Rightarrow> error + ('n option list \<times> string list)" where
  "collectInvalidated_new H ms =
     (case collectChanges H ms (getChanges H) [] [] of
        Inl e \<Rightarrow> Inl e
      | Inr (changedNodes, removed1) \<Rightarrow>
          (case collectGraveyard_new (getChangedMarkers H) removed1 of
             Inl e \<Rightarrow> Inl e
           | Inr removed2 \<Rightarrow>
               (case collectIntersecting H ms changedNodes removed2 of
                  Inl e \<Rightarrow> Inl e
                | Inr removedMarkers \<Rightarrow> Inr (changedNodes, removedMarkers))))"

text \<open>
  The loop inside \<open>model.change\<close>: the result is removed first, then the marker. The
  legacy edition removes the result whether or not the store has it; the new edition
  asks \<open>results.has\<close> first.
\<close>

fun removeInvalidated_legacy :: "string list \<Rightarrow> engine \<Rightarrow> error + engine" where
  "removeInvalidated_legacy [] st = Inr st"
| "removeInvalidated_legacy (markerName # names) st =
     (case results_remove markerName st of
        Inl e \<Rightarrow> Inl e
      | Inr st1 \<Rightarrow>
          (case writer_removeMarker markerName st1 of
             Inl e \<Rightarrow> Inl e
           | Inr st2 \<Rightarrow> removeInvalidated_legacy names st2))"

fun removeInvalidated_new :: "string list \<Rightarrow> engine \<Rightarrow> error + engine" where
  "removeInvalidated_new [] st = Inr st"
| "removeInvalidated_new (markerName # names) st =
     (case (if collection_has (resultsOf st) markerName then results_remove markerName st
            else Inr st) of
        Inl e \<Rightarrow> Inl e
      | Inr st1 \<Rightarrow>
          (case writer_removeMarker markerName st1 of
             Inl e \<Rightarrow> Inl e
           | Inr st2 \<Rightarrow> removeInvalidated_new names st2))"

text \<open>
  Collecting and removing: the part of \<open>onDocumentChange\<close> before the search is run
  again, with the changed nodes it hands on.
\<close>

definition invalidate_legacy :: "'n host \<Rightarrow> engine \<Rightarrow> error + ('n option list \<times> engine)" where
  "invalidate_legacy H st =
     (case collectInvalidated_legacy H (markersOf st) of
        Inl e \<Rightarrow> Inl e
      | Inr (changedNodes, removedMarkers) \<Rightarrow>
          (case modelChange (removeInvalidated_legacy removedMarkers) st of
             Inl e \<Rightarrow> Inl e
           | Inr st1 \<Rightarrow> Inr (changedNodes, st1)))"

definition invalidate_new :: "'n host \<Rightarrow> engine \<Rightarrow> error + ('n option list \<times> engine)" where
  "invalidate_new H st =
     (case collectInvalidated_new H (markersOf st) of
        Inl e \<Rightarrow> Inl e
      | Inr (changedNodes, removedMarkers) \<Rightarrow>
          (case modelChange (removeInvalidated_new removedMarkers) st of
             Inl e \<Rightarrow> Inl e
           | Inr st1 \<Rightarrow> Inr (changedNodes, st1)))"

text \<open>The last loop: the search is run again on the range on every changed node.\<close>

fun rescan ::
  "(modelRange \<Rightarrow> engine \<Rightarrow> error + engine) \<Rightarrow> 'n host \<Rightarrow> 'n option list \<Rightarrow> engine \<Rightarrow>
   error + engine" where
  "rescan update H [] st = Inr st"
| "rescan update H (nodeToCheck # nodes) st =
     (case createRangeOn H nodeToCheck of
        Inl e \<Rightarrow> Inl e
      | Inr r \<Rightarrow>
          (case update r st of
             Inl e \<Rightarrow> Inl e
           | Inr st' \<Rightarrow> rescan update H nodes st'))"

text \<open>\<open>onDocumentChange(results, model, searchCallback)\<close> of the legacy edition.\<close>

definition onDocumentChange_legacy :: "'n host \<Rightarrow> findCallback \<Rightarrow> engine \<Rightarrow> error + engine" where
  "onDocumentChange_legacy H searchCallback st =
     (case invalidate_legacy H st of
        Inl e \<Rightarrow> Inl e
      | Inr (changedNodes, st1) \<Rightarrow>
          rescan (updateFindResultFromRange H searchCallback) H changedNodes st1)"

text \<open>
  \<open>onDocumentChange(results, model, searchCallback)\<close> of the new edition. It imports
  \<open>updateFindResultFromRange\<close> from the utilities module of the package, which is not
  among the sources; the function is the parameter \<open>update\<close>.
\<close>

definition onDocumentChange_new ::
  "(findCallback \<Rightarrow> modelRange \<Rightarrow> engine \<Rightarrow> error + engine) \<Rightarrow>
   'n host \<Rightarrow> findCallback \<Rightarrow> engine \<Rightarrow> error + engine" where
  "onDocumentChange_new update H searchCallback st =
     (case invalidate_new H st of
        Inl e \<Rightarrow> Inl e
      | Inr (changedNodes, st1) \<Rightarrow> rescan (update searchCallback) H changedNodes st1)"

text \<open>
  What one invalidated marker leaves in the journal, and the order the journal must
  show: no marker of a stored result is removed before that result is.
\<close>

definition removalEvents :: "findResult list \<Rightarrow> string \<Rightarrow> event list" where
  "removalEvents rs name =
     (if collection_has rs name then [ResultRemoved name] else []) @ [MarkerRemoved name]"

definition resultRemovedFirst :: "findResult list \<Rightarrow> event list \<Rightarrow> bool" where
  "resultRemovedFirst rs body =
     list_all
       (\<lambda>r. MarkerRemoved (res_id r) \<notin> set (takeWhile (\<lambda>e. e \<noteq> ResultRemoved (res_id r)) body))
       rs"

section \<open>The highlighted result\<close>

text \<open>
  \<open>name.split(':')[1]\<close> inside a template literal: the second piece of the name, or
  the text \<open>undefined\<close> when the name has no colon.
\<close>

fun js_split :: "char \<Rightarrow> string \<Rightarrow> string list" where
  "js_split c [] = [[]]"
| "js_split c (x # xs) =
     (if x = c then [] # js_split c xs
      else (case js_split c xs of
              [] \<Rightarrow> [[x]]
            | p # ps \<Rightarrow> (x # p) # ps))"

definition matchId :: "string \<Rightarrow> string" where
  "matchId name =
     (case js_split (CHR '':'') name of
        a # b # rest \<Rightarrow> b
      | _ \<Rightarrow> ''undefined'')"

definition highlightName :: "string \<Rightarrow> string" where
  "highlightName name = ''findResultHighlighted:'' @ matchId name"

definition isHighlightName :: "string \<Rightarrow> bool" where
  "isHighlightName name = (take 22 name = ''findResultHighlighted:'')"

text \<open>
  The listener of \<open>change:highlightedResult\<close> in \<open>init\<close> of the new edition, with the
  new and the old value of the field.
\<close>

definition onHighlightedResultChange ::
  "findResult option \<Rightarrow> findResult option \<Rightarrow> engine \<Rightarrow> error + engine" where
  "onHighlightedResultChange newValue oldValue =
     modelChange (\<lambda>st.
       case (case oldValue of
               None \<Rightarrow> Inr st
             | Some old \<Rightarrow>
                 (case markersOf st (highlightName (res_marker old)) of
                    None \<Rightarrow> Inr st
                  | Some oldMarker \<Rightarrow> writer_removeMarker (highlightName (res_marker old)) st)) of
         Inl e \<Rightarrow> Inl e
       | Inr st1 \<Rightarrow>
           (case newValue of
              None \<Rightarrow> Inr st1
            | Some new \<Rightarrow>
                (case getRange (markersOf st1) (res_marker new) of
                   Inl e \<Rightarrow> Inl e
                 | Inr r \<Rightarrow> writer_addMarker (highlightName (res_marker new)) r st1)))"

text \<open>
  The state object of the new edition, as its constructor sets it. The result
  collection it holds is the result store of the engine state above. The flags
  \<open>matchCase\<close> and \<open>matchWholeWords\<close> are set here and read nowhere in the sources;
  \<open>findByTextCallback\<close> has no parameter for them.
\<close>

record findAndReplaceState =
  highlightedResult :: "findResult option"
  searchText :: jsstring
  replaceText :: jsstring
  matchCase :: bool
  matchWholeWords :: bool

definition newFindAndReplaceState :: findAndReplaceState where
  "newFindAndReplaceState =
     \<lparr> highlightedResult = None, searchText = [], replaceText = [],
       matchCase = False, matchWholeWords = False \<rparr>"

text \<open>
  At most one highlight marker is live, and it is the one of the highlighted result.
\<close>

definition highlightInvariant :: "findResult option \<Rightarrow> markers \<Rightarrow> bool" where
  "highlightInvariant highlighted ms =
     (\<forall>name. isHighlightName name \<and> ms name \<noteq> None \<longrightarrow>
        (\<exists>r. highlighted = Some r \<and> name = highlightName (res_marker r)))"

section \<open>Replacing\<close>

text \<open>
  The legacy plugin: the document, the markers and \<open>activeResults\<close>, which is null when
  no search is active. \<open>model.insertContent\<close> belongs to the engine and is the
  parameter \<open>ins\<close>: from the document, the markers, the content and the range it gives
  the new document and the markers as the engine moved them.
\<close>

record 'doc editor =
  ed_document :: 'doc
  ed_markers :: markers
  activeResults :: "findResult list option"

datatype writer = Writer

datatype textOrCallback = TextArg jsstring | CallbackArg "writer \<Rightarrow> node"

fun createText :: "writer \<Rightarrow> jsstring \<Rightarrow> node" where
  "createText Writer t = Text t"

definition getDefaultCallback :: "jsstring \<Rightarrow> writer \<Rightarrow> node" where
  "getDefaultCallback textOrCallback = (\<lambda>writer. createText writer textOrCallback)"

definition replace ::
  "('doc \<Rightarrow> markers \<Rightarrow> node \<Rightarrow> modelRange \<Rightarrow> 'doc \<times> markers) \<Rightarrow>
   'doc editor \<Rightarrow> findResult \<Rightarrow> textOrCallback \<Rightarrow> error + 'doc editor" where
  "replace ins ed result textOrCallback =
     (let callback = (case textOrCallback of
                        CallbackArg f \<Rightarrow> f
                      | TextArg t \<Rightarrow> getDefaultCallback t)
      in case getRange (ed_markers ed) (res_marker result) of
           Inl e \<Rightarrow> Inl e
         | Inr r \<Rightarrow>
             (case ins (ed_document ed) (ed_markers ed) (callback Writer) r of
                (d, ms) \<Rightarrow> Inr (ed\<lparr> ed_document := d, ed_markers := ms \<rparr>)))"

fun replaceEach ::
  "('doc \<Rightarrow> markers \<Rightarrow> node \<Rightarrow> modelRange \<Rightarrow> 'doc \<times> markers) \<Rightarrow>
   findResult list \<Rightarrow> textOrCallback \<Rightarrow> 'doc editor \<Rightarrow> error + 'doc editor" where
  "replaceEach ins [] textOrCallback ed = Inr ed"
| "replaceEach ins (r # rs) textOrCallback ed =
     (case replace ins ed r textOrCallback of
        Inl e \<Rightarrow> Inl e
      | Inr ed' \<Rightarrow> replaceEach ins rs textOrCallback ed')"

definition replaceAll ::
  "('doc \<Rightarrow> markers \<Rightarrow> node \<Rightarrow> modelRange \<Rightarrow> 'doc \<times> markers) \<Rightarrow>
   'doc editor \<Rightarrow> textOrCallback \<Rightarrow> error + 'doc editor" where
  "replaceAll ins ed textOrCallback =
     (case activeResults ed of
        None \<Rightarrow> Inr ed
      | Some rs \<Rightarrow> replaceEach ins rs textOrCallback ed)"

text \<open>
  Modelled from the spec: replacing the content a range spans by the given content,
  on a document of one paragraph held as its text. The offsets of the range are the
  last steps of its paths; the markers are handed back as they are.
\<close>

definition offsetOf :: "position \<Rightarrow> nat" where
  "offsetOf p = (case rev (pos_path p) of [] \<Rightarrow> 0 | x # xs \<Rightarrow> x)"

definition insertContent_flat ::
  "jsstring \<Rightarrow> markers \<Rightarrow> node \<Rightarrow> modelRange \<Rightarrow> jsstring \<times> markers" where
  "insertContent_flat d ms content r =
     (take (offsetOf (range_start r)) d @ data content @ drop (offsetOf (range_end r)) d, ms)"

section \<open>A worked scenario\<close>

text \<open>
  A document of two paragraphs in the root \<open>main\<close>. Both held the text \<open>foo\<close> and a
  result each; a third result lost its content, and its marker moved to the graveyard.
  Then one character was typed at the end of the first paragraph. Nodes are named by
  the index of their paragraph.
\<close>

definition paragraphAt :: "nat \<Rightarrow> jsstring \<Rightarrow> element" where
  "paragraphAt k d =
     \<lparr> el_root = ''main'', el_path = [k], el_name = ''paragraph'', el_children = [Text d] \<rparr>"

definition inParagraph :: "nat \<Rightarrow> nat \<Rightarrow> nat \<Rightarrow> modelRange" where
  "inParagraph k a b =
     \<lparr> range_start = \<lparr> pos_root = ''main'', pos_path = [k, a] \<rparr>,
       range_end = \<lparr> pos_root = ''main'', pos_path = [k, b] \<rparr> \<rparr>"

definition inGraveyardAt :: "nat \<Rightarrow> nat \<Rightarrow> nat \<Rightarrow> modelRange" where
  "inGraveyardAt k a b =
     \<lparr> range_start = \<lparr> pos_root = ''$graveyard'', pos_path = [k, a] \<rparr>,
       range_end = \<lparr> pos_root = ''$graveyard'', pos_path = [k, b] \<rparr> \<rparr>"

definition sameBlock :: "modelRange \<Rightarrow> modelRange \<Rightarrow> bool" where
  "sameBlock r q =
     (pos_root (range_start r) = pos_root (range_start q) \<and>
      take 1 (pos_path (range_start r)) = take 1 (pos_path (range_start q)))"

definition sampleHost :: "nat host" where
  "sampleHost =
     \<lparr> schema_isInline = (\<lambda>n. case n of None \<Rightarrow> Inl TypeError | Some k \<Rightarrow> Inr False),
       schema_checkChild_text = (\<lambda>e. el_name e = ''paragraph''),
       getChanges =
         [\<lparr> ch_name = Some ''$text'', ch_type = ''insert'',
            ch_position = \<lparr> pos_root = ''main'', pos_path = [0, 3] \<rparr>,
            ch_parent = 0, ch_nodeAfter = None \<rparr>],
       getChangedMarkers =
         [\<lparr> cm_name = ''findResult:gone'', cm_newRange = Some (inGraveyardAt 0 0 3) \<rparr>],
       getMarkersAtPosition = (\<lambda>ms p. []),
       getMarkersIntersectingRange =
         (\<lambda>ms r. filter (\<lambda>n. case ms n of None \<Rightarrow> False | Some q \<Rightarrow> sameBlock q r)
                    [''findResult:first'', ''findResult:second'', ''findResult:gone'']),
       createRangeIn =
         (\<lambda>n. case n of None \<Rightarrow> Inl TypeError | Some k \<Rightarrow> Inr (inParagraph k 0 4)),
       createRangeOn =
         (\<lambda>n. case n of
                 None \<Rightarrow> Inl TypeError
               | Some k \<Rightarrow>
                   Inr \<lparr> range_start = \<lparr> pos_root = ''main'', pos_path = [k] \<rparr>,
                         range_end = \<lparr> pos_root = ''main'', pos_path = [Suc k] \<rparr> \<rparr>),
       rangeValues =
         (\<lambda>r. [ElementStart (paragraphAt 0 (utf16 ''foo!'')), TextValue (utf16 ''foo!''),
                ElementEnd (paragraphAt 0 (utf16 ''foo!''))]),
       uid = (\<lambda>k. replicate (Suc k) (CHR ''u'')) \<rparr>"

definition sampleResult :: "string \<Rightarrow> findResult" where
  "sampleResult name = \<lparr> res_id = name, res_label = utf16 ''foo'', res_marker = name \<rparr>"

definition sampleState :: engine where
  "sampleState =
     \<lparr> markersOf =
         [''findResult:first'' \<mapsto> inParagraph 0 0 3,
          ''findResult:second'' \<mapsto> inParagraph 1 0 3,
          ''findResult:gone'' \<mapsto> inGraveyardAt 0 0 3],
       resultsOf =
         [sampleResult ''findResult:first'', sampleResult ''findResult:gone'',
          sampleResult ''findResult:second''],
       uidCount = 0,
       journal = [] \<rparr>"

definition searchFoo :: findCallback where
  "searchFoo = (\<lambda>item txt. findByTextCallback foldBasicLatin (utf16 ''foo'') txt)"

text \<open>The state after the invalidation, and after the search was run again.\<close>

definition sampleAfter :: engine where
  "sampleAfter =
     \<lparr> markersOf = [''findResult:second'' \<mapsto> inParagraph 1 0 3],
       resultsOf = [sampleResult ''findResult:second''],
       uidCount = 0,
       journal =
         [ChangeBegin,
          ResultRemoved ''findResult:gone'', MarkerRemoved ''findResult:gone'',
          ResultRemoved ''findResult:first'', MarkerRemoved ''findResult:first'',
          ChangeEnd] \<rparr>"

definition sampleRescanned :: engine where
  "sampleRescanned =
     \<lparr> markersOf = [''findResult:second'' \<mapsto> inParagraph 1 0 3,
                    ''findResult:u'' \<mapsto> inParagraph 0 0 3],
       resultsOf =
         [\<lparr> res_id = ''findResult:u'', res_label = utf16 ''foo'', res_marker = ''findResult:u'' \<rparr>,
          sampleResult ''findResult:second''],
       uidCount = 1,
       journal =
         [ChangeBegin,
          ResultRemoved ''findResult:gone'', MarkerRemoved ''findResult:gone'',
          ResultRemoved ''findResult:first'', MarkerRemoved ''findResult:first'',
          ChangeEnd,
          ChangeBegin, MarkerAdded ''findResult:u'', ResultAdded ''findResult:u'' 0, ChangeEnd] \<rparr>"

text \<open>
  The same change, but reported together with the removal of a marker of another
  feature: the new range of that changed marker is null.
\<close>

definition removedMarkerHost :: "nat host" where
  "removedMarkerHost =
     sampleHost\<lparr> getChangedMarkers :=
       [\<lparr> cm_name = ''comment:1'', cm_newRange = None \<rparr>] \<rparr>"

definition removedMarkerRescanned :: engine where
  "removedMarkerRescanned =
     \<lparr> markersOf =
         [''findResult:second'' \<mapsto> inParagraph 1 0 3,
          ''findResult:gone'' \<mapsto> inGraveyardAt 0 0 3,
          ''findResult:u'' \<mapsto> inParagraph 0 0 3],
       resultsOf =
         [sampleResult ''findResult:gone'',
          \<lparr> res_id = ''findResult:u'', res_label = utf16 ''foo'', res_marker = ''findResult:u'' \<rparr>,
          sampleResult ''findResult:second''],
       uidCount = 1,
       journal =
         [ChangeBegin,
          ResultRemoved ''findResult:first'', MarkerRemoved ''findResult:first'',
          ChangeEnd,
          ChangeBegin, MarkerAdded ''findResult:u'', ResultAdded ''findResult:u'' 1, ChangeEnd] \<rparr>"

text \<open>
  Another batch: the second paragraph, the last block of the root, was removed with the
  result it held, and the marker of that result moved to the graveyard. The differ
  reports the removal at the position after the first paragraph, where no node stands
  any more, so the node after the position is null. The root is named 2. The schema
  reads a property of the node it is asked about, which is a type error for null.
\<close>

definition lastBlockRemovedHost :: "nat host" where
  "lastBlockRemovedHost =
     sampleHost\<lparr>
       getChanges :=
         [\<lparr> ch_name = Some ''paragraph'', ch_type = ''remove'',
            ch_position = \<lparr> pos_root = ''main'', pos_path = [1] \<rparr>,
            ch_parent = 2, ch_nodeAfter = None \<rparr>],
       getChangedMarkers :=
         [\<lparr> cm_name = ''findResult:second'', cm_newRange = Some (inGraveyardAt 0 0 3) \<rparr>] \<rparr>"

definition lastBlockRemovedState :: engine where
  "lastBlockRemovedState =
     \<lparr> markersOf =
         [''findResult:first'' \<mapsto> inParagraph 0 0 3,
          ''findResult:second'' \<mapsto> inGraveyardAt 0 0 3],
       resultsOf = [sampleResult ''findResult:first'', sampleResult ''findResult:second''],
       uidCount = 2,
       journal = [] \<rparr>"

text \<open>The range on a paragraph, from before it to after it.\<close>

definition onParagraph :: "nat \<Rightarrow> modelRange" where
  "onParagraph k =
     \<lparr> range_start = \<lparr> pos_root = ''main'', pos_path = [k] \<rparr>,
       range_end = \<lparr> pos_root = ''main'', pos_path = [Suc k] \<rparr> \<rparr>"

text \<open>
  A state in which the first result is highlighted, and the state after the highlight
  went to the second.
\<close>

definition sampleHighlighted :: engine where
  "sampleHighlighted =
     \<lparr> markersOf =
         [''findResult:first'' \<mapsto> inParagraph 0 0 3,
          ''findResult:second'' \<mapsto> inParagraph 1 0 3,
          ''findResultHighlighted:first'' \<mapsto> inParagraph 0 0 3],
       resultsOf = [sampleResult ''findResult:first'', sampleResult ''findResult:second''],
       uidCount = 2,
       journal = [] \<rparr>"

definition sampleHighlightMoved :: engine where
  "sampleHighlightMoved =
     \<lparr> markersOf =
         [''findResult:first'' \<mapsto> inParagraph 0 0 3,
          ''findResult:second'' \<mapsto> inParagraph 1 0 3,
          ''findResultHighlighted:second'' \<mapsto> inParagraph 1 0 3],
       resultsOf = [sampleResult ''findResult:first'', sampleResult ''findResult:second''],
       uidCount = 2,
       journal =
         [ChangeBegin, MarkerRemoved ''findResultHighlighted:first'',
          MarkerAdded ''findResultHighlighted:second'', ChangeEnd] \<rparr>"

text \<open>
  An editor with the one paragraph \<open>foo foo\<close>, a marker made by hand on the second
  word, and no active search.
\<close>

definition sampleEditor :: "jsstring editor" where
  "sampleEditor =
     \<lparr> ed_document = utf16 ''foo foo'',
       ed_markers = [''my-marker-id'' \<mapsto> inParagraph 0 4 7],
       activeResults = None \<rparr>"

definition contentOf :: "textOrCallback \<Rightarrow> node" where
  "contentOf textOrCallback =
     (case textOrCallback of TextArg t \<Rightarrow> Text t | CallbackArg f \<Rightarrow> f Writer)"

section \<open>Properties of the text projection\<close>

lemma length_foldl_items:
  assumes "\<And>acc node. length (f acc node) = length acc + offsetSize node"
  shows "length (foldl f acc items) = length acc + sum_list (map offsetSize items)"
  by (induction items arbitrary: acc) (simp_all add: assms)

lemma length_rangeToText:
  "length (rangeToText items) = sum_list (map offsetSize items)"
proof -
  have "length (if \<not> (isText node \<or> isTextProxy node) then acc @ [0x0A] else acc @ data node) =
        length acc + offsetSize node" for acc :: jsstring and node
    by (cases node) simp_all
  then show ?thesis
    unfolding rangeToText_def by (subst length_foldl_items) simp_all
qed

lemma maxOffset_Cons: "maxOffset (c # cs) = offsetSize c + maxOffset cs"
  by (simp add: maxOffset_def)

lemma offsets_getItems:
  "\<forall>c \<in> set cs. inAssumedSchema c \<Longrightarrow>
   sum_list (map offsetSize (getItems cs a b)) = min b (maxOffset cs) - a"
proof (induction cs arbitrary: a b)
  case Nil
  show ?case by (simp add: maxOffset_def)
next
  case (Cons c cs)
  then have ih: "\<And>a b. sum_list (map offsetSize (getItems cs a b)) = min b (maxOffset cs) - a"
    by simp
  show ?case
  proof (cases c)
    case (Text d)
    then show ?thesis
      by (auto simp add: ih maxOffset_Cons Let_def min_def simp del: sum_list_eq_0_iff)
  next
    case (TextProxy d)
    then show ?thesis
      by (auto simp add: ih maxOffset_Cons Let_def min_def simp del: sum_list_eq_0_iff)
  next
    case (Element n ks)
    with Cons.prems have "ks = []" by simp
    with Element show ?thesis
      by (auto simp add: ih maxOffset_Cons Let_def min_def simp del: sum_list_eq_0_iff)
  qed
qed

text \<open>
  C1. Inside a block whose children are text and the empty line-break element, the
  text that \<open>rangeToText\<close> returns for the range from offset \<open>a\<close> to offset \<open>b\<close> has
  exactly \<open>b - a\<close> code units, the length of the range in tree-position units: a text
  item gives its data, any other item one new line character.
\<close>

theorem rangeToText_length:
  assumes "\<forall>c \<in> set cs. inAssumedSchema c" and "a \<le> b" and "b \<le> maxOffset cs"
  shows "length (rangeToText (getItems cs a b)) = b - a"
  using assms by (simp add: length_rangeToText offsets_getItems)

theorem rangeToText_length_witness:
  "list_all inAssumedSchema
     [Text (utf16 ''foo''), Element ''softBreak'' [], Text (utf16 ''bar'')]
   \<and> (1::nat) \<le> 6
   \<and> 6 \<le> maxOffset [Text (utf16 ''foo''), Element ''softBreak'' [], Text (utf16 ''bar'')]
   \<and> rangeToText
         (getItems [Text (utf16 ''foo''), Element ''softBreak'' [], Text (utf16 ''bar'')] 1 6)
       = utf16 ''oo'' @ [0x0A] @ utf16 ''ba''
   \<and> length (rangeToText
         (getItems [Text (utf16 ''foo''), Element ''softBreak'' [], Text (utf16 ''bar'')] 1 6))
       = 6 - 1"
  using rangeToText_length
    [of "[Text (utf16 ''foo''), Element ''softBreak'' [], Text (utf16 ''bar'')]" 1 6]
  by (simp add: maxOffset_def utf16_def rangeToText_def)

section \<open>Properties of the built-in find callback\<close>

declare matchAllFrom.simps [simp del]

lemma length_boundariesFrom: "length (boundariesFrom cs i) = Suc (length cs)"
  by (induction cs arbitrary: i) simp_all

lemma matchAllFrom_empty_pattern:
  "matchAllFrom canon [] cs i = map (\<lambda>j. (j, [])) (boundariesFrom cs i)"
proof (induction cs arbitrary: i)
  case Nil
  show ?case by (simp add: matchAllFrom.simps [of canon "[]" "[]"])
next
  case (Cons c cs)
  show ?case
    by (simp add: matchAllFrom.simps [of canon "[]" "c # cs"] Cons.IH)
qed

text \<open>
  C2, as the code has it. The callback built for the empty search string does not
  return zero matches: for every text it returns one empty match at every code-point
  boundary of the text, the end of the text included, so one more match than the
  text has code points.
\<close>

theorem findByTextCallback_empty_term:
  "findByTextCallback canon [] txt =
     Some (map (\<lambda>i. \<lparr> found_label = [], found_start = i, found_end = i \<rparr>)
             (codePointBoundaries txt))
   \<and> length (codePointBoundaries txt) = Suc (length (codePoints txt))"
  by (simp add: findByTextCallback_def RegExp_igu_def matchAll_def matchAllFrom_empty_pattern
      codePointBoundaries_def regexpMatchToFindResult_def length_boundariesFrom comp_def)

text \<open>
  C2 as stated fails: on the text \<open>ab\<close> the callback for the empty search string
  returns three matches.
\<close>

theorem findByTextCallback_empty_term_matches:
  "findByTextCallback foldBasicLatin [] (utf16 ''ab'') =
     Some [\<lparr> found_label = [], found_start = 0, found_end = 0 \<rparr>,
           \<lparr> found_label = [], found_start = 1, found_end = 1 \<rparr>,
           \<lparr> found_label = [], found_start = 2, found_end = 2 \<rparr>]"
  by (simp add: findByTextCallback_def RegExp_igu_def matchAll_def regexpMatchToFindResult_def
      utf16_def isLeadSurrogate_def isTrailSurrogate_def matchAllFrom.simps)

lemma parsePattern_literal:
  "\<forall>c \<in> set cs. c \<notin> set syntaxCharacters \<Longrightarrow>
   parsePattern cs = Some (map PatternCharacter cs)"
proof (induction cs)
  case Nil
  show ?case by simp
next
  case (Cons c cs)
  then have "c \<notin> set syntaxCharacters" by simp
  moreover have "dotChar \<in> set syntaxCharacters"
    by (simp add: dotChar_def syntaxCharacters_def)
  ultimately have "c \<noteq> dotChar" by blast
  with Cons show ?case by simp
qed

lemma matchHere_literal:
  "matchHere canon (map PatternCharacter t) cs =
     (if occursAt canon t cs then Some (take (length t) cs, drop (length t) cs) else None)"
proof (induction t arbitrary: cs)
  case Nil
  show ?case by (simp add: occursAt_def)
next
  case (Cons p t)
  show ?case
  proof (cases cs)
    case Nil
    then show ?thesis by (simp add: occursAt_def)
  next
    case (Cons c cs')
    then show ?thesis
      using Cons.IH [of cs'] by (auto simp: occursAt_def)
  qed
qed

lemma codePoints_nonempty: "[] \<notin> set (codePoints s)"
  by (induction s rule: codePoints.induct) auto

lemma concat_take_nonempty:
  assumes "[] \<notin> set cs" and "0 < n" and "cs \<noteq> []"
  shows "concat (take n cs) \<noteq> []"
proof -
  obtain c cs' where cs: "cs = c # cs'" using assms(3) by (cases cs) auto
  obtain k where n: "n = Suc k" using assms(2) by (cases n) auto
  from assms(1) cs have "c \<noteq> []" by auto
  then show ?thesis by (simp add: cs n)
qed

lemma regexpMatchToFindResult_pair:
  "regexpMatchToFindResult (i, s) =
     \<lparr> found_label = s, found_start = i, found_end = i + length s \<rparr>"
  by (simp add: regexpMatchToFindResult_def)

lemma matchAllFrom_literal:
  "t \<noteq> [] \<Longrightarrow> [] \<notin> set cs \<Longrightarrow>
     map regexpMatchToFindResult (matchAllFrom canon (map PatternCharacter t) cs i) =
     literalFrom canon t cs i"
proof (induction canon t cs i rule: literalFrom.induct)
  case (1 canon t i)
  then show ?case
    by (simp add: matchAllFrom.simps [of canon _ "[]"] matchHere_literal occursAt_def)
next
  case (2 canon t c cs i)
  note tne = \<open>t \<noteq> []\<close>
  note clean = \<open>[] \<notin> set (c # cs)\<close>
  show ?case
  proof (cases "occursAt canon t (c # cs)")
    case True
    have ne: "concat (take (length t) (c # cs)) \<noteq> []"
      using concat_take_nonempty [of "c # cs" "length t"] clean tne by simp
    have sub: "[] \<notin> set (drop (length t) (c # cs))"
      using clean by (meson in_set_dropD)
    have "map regexpMatchToFindResult
            (matchAllFrom canon (map PatternCharacter t) (drop (length t) (c # cs))
               (i + length (concat (take (length t) (c # cs))))) =
          literalFrom canon t (drop (length t) (c # cs))
            (i + length (concat (take (length t) (c # cs))))"
      using 2(1) [OF _ refl tne sub] True tne by simp
    moreover have "matchAllFrom canon (map PatternCharacter t) (c # cs) i =
          (i, concat (take (length t) (c # cs))) #
          matchAllFrom canon (map PatternCharacter t) (drop (length t) (c # cs))
            (i + length (concat (take (length t) (c # cs))))"
      using True ne
      by (subst matchAllFrom.simps) (simp add: matchHere_literal del: concat_eq_Nil_conv)
    ultimately show ?thesis
      using True tne
      by (simp add: regexpMatchToFindResult_pair Let_def del: concat_eq_Nil_conv)
  next
    case False
    have sub: "[] \<notin> set cs" using clean by simp
    have "map regexpMatchToFindResult
            (matchAllFrom canon (map PatternCharacter t) cs (i + length c)) =
          literalFrom canon t cs (i + length c)"
      using 2(2) [OF _ tne sub] False by simp
    moreover have "matchAllFrom canon (map PatternCharacter t) (c # cs) i =
          matchAllFrom canon (map PatternCharacter t) cs (i + length c)"
      using False
      by (subst matchAllFrom.simps) (simp add: matchHere_literal)
    ultimately show ?thesis
      using False by simp
  qed
qed

text \<open>
  C4, as the code has it. The search term is the source of the regular expression as
  it stands; nothing escapes it, and the flags are always \<open>igu\<close>. For a search term
  that is not empty and holds no syntax character of the pattern language, the
  callback returns exactly the literal occurrences of the term, compared code point by
  code point without regard to case.
\<close>

theorem findByTextCallback_literal:
  assumes "searchTerm \<noteq> []" and "\<not> hasSyntaxCharacter searchTerm"
  shows "findByTextCallback canon searchTerm txt = Some (literalMatches canon searchTerm txt)"
proof -
  have "codePoints searchTerm \<noteq> []"
    using assms(1) by (cases searchTerm rule: codePoints.cases) auto
  moreover have "RegExp_igu searchTerm = Some (map PatternCharacter (codePoints searchTerm))"
    using assms(2) by (simp add: RegExp_igu_def hasSyntaxCharacter_def parsePattern_literal)
  ultimately show ?thesis
    by (simp add: findByTextCallback_def matchAll_def literalMatches_def
        matchAllFrom_literal codePoints_nonempty)
qed

theorem findByTextCallback_literal_witness:
  "utf16 ''foo'' \<noteq> []
   \<and> \<not> hasSyntaxCharacter (utf16 ''foo'')
   \<and> findByTextCallback foldBasicLatin (utf16 ''foo'') (utf16 ''Foo fOO'') =
       Some [\<lparr> found_label = utf16 ''Foo'', found_start = 0, found_end = 3 \<rparr>,
             \<lparr> found_label = utf16 ''fOO'', found_start = 4, found_end = 7 \<rparr>]"
proof -
  have a: "utf16 ''foo'' \<noteq> []"
    by (simp add: utf16_def)
  have b: "\<not> hasSyntaxCharacter (utf16 ''foo'')"
    by (simp add: hasSyntaxCharacter_def utf16_def syntaxCharacters_def
        isLeadSurrogate_def isTrailSurrogate_def)
  have "literalMatches foldBasicLatin (utf16 ''foo'') (utf16 ''Foo fOO'') =
       [\<lparr> found_label = utf16 ''Foo'', found_start = 0, found_end = 3 \<rparr>,
        \<lparr> found_label = utf16 ''fOO'', found_start = 4, found_end = 7 \<rparr>]"
    by (simp add: literalMatches_def occursAt_def foldBasicLatin_def utf16_def
        isLeadSurrogate_def isTrailSurrogate_def)
  with a b findByTextCallback_literal [OF a b, of foldBasicLatin "utf16 ''Foo fOO''"]
  show ?thesis by simp
qed

text \<open>
  C4 as stated fails: the search term is not escaped. The search term \<open>.\<close> finds the
  text \<open>a\<close>, which has no literal occurrence of it.
\<close>

theorem findByTextCallback_dot_not_literal:
  "findByTextCallback foldBasicLatin (utf16 ''.'') (utf16 ''a'') =
     Some [\<lparr> found_label = utf16 ''a'', found_start = 0, found_end = 1 \<rparr>]
   \<and> literalMatches foldBasicLatin (utf16 ''.'') (utf16 ''a'') = []"
  by (simp add: findByTextCallback_def RegExp_igu_def matchAll_def regexpMatchToFindResult_def
      utf16_def isLeadSurrogate_def isTrailSurrogate_def dotChar_def lineTerminators_def
      literalMatches_def occursAt_def foldBasicLatin_def matchAllFrom.simps)

text \<open>
  C5. On the text \<open>foo foo foo foo\<close> the callback for the search term \<open>foo\<close> returns
  four matches, at the half-open spans 0 to 3, 4 to 7, 8 to 11 and 12 to 15, each with
  the label \<open>foo\<close>, in ascending order. This holds for every case folding table that
  keeps the space and the letter f apart, as the engine's does.
\<close>

theorem findByTextCallback_foo:
  assumes "canon [0x20] \<noteq> canon [0x66]"
  shows "findByTextCallback canon (utf16 ''foo'') (utf16 ''foo foo foo foo'') =
    Some [\<lparr> found_label = utf16 ''foo'', found_start = 0, found_end = 3 \<rparr>,
          \<lparr> found_label = utf16 ''foo'', found_start = 4, found_end = 7 \<rparr>,
          \<lparr> found_label = utf16 ''foo'', found_start = 8, found_end = 11 \<rparr>,
          \<lparr> found_label = utf16 ''foo'', found_start = 12, found_end = 15 \<rparr>]"
  using assms
  by (simp add: findByTextCallback_def RegExp_igu_def dotChar_def syntaxCharacters_def
      matchAll_def regexpMatchToFindResult_def utf16_def isLeadSurrogate_def
      isTrailSurrogate_def matchAllFrom.simps)

theorem findByTextCallback_foo_witness:
  "foldBasicLatin [0x20] \<noteq> foldBasicLatin [0x66]
   \<and> findByTextCallback foldBasicLatin (utf16 ''foo'') (utf16 ''foo foo foo foo'') =
    Some [\<lparr> found_label = utf16 ''foo'', found_start = 0, found_end = 3 \<rparr>,
          \<lparr> found_label = utf16 ''foo'', found_start = 4, found_end = 7 \<rparr>,
          \<lparr> found_label = utf16 ''foo'', found_start = 8, found_end = 11 \<rparr>,
          \<lparr> found_label = utf16 ''foo'', found_start = 12, found_end = 15 \<rparr>]"
proof -
  have h: "foldBasicLatin [0x20] \<noteq> foldBasicLatin [0x66]"
    by (simp add: foldBasicLatin_def)
  from h findByTextCallback_foo [OF h] show ?thesis by simp
qed

section \<open>Properties of the result store\<close>

lemma pathBefore_irrefl: "\<not> pathBefore p p"
  by (induction p) auto

lemma pathBefore_trans: "pathBefore p q \<Longrightarrow> pathBefore q r \<Longrightarrow> pathBefore p r"
proof (induction p q arbitrary: r rule: pathBefore.induct)
  case 1
  then show ?case by simp
next
  case (2 y ys)
  then show ?case by (cases r) auto
next
  case (3 x xs)
  then show ?case by simp
next
  case (4 x xs y ys)
  then show ?case by (cases r) auto
qed

lemma isBefore_irrefl: "\<not> isBefore p p"
  by (simp add: isBefore_def pathBefore_irrefl)

lemma isBefore_trans: "isBefore p q \<Longrightarrow> isBefore q r \<Longrightarrow> isBefore p r"
  by (auto simp: isBefore_def intro: pathBefore_trans)

lemma isBefore_asym: "isBefore p q \<Longrightarrow> \<not> isBefore q p"
  using isBefore_trans isBefore_irrefl by blast

lemma findInsertIndexFrom_spec:
  assumes "ms n = Some rn" and "res_marker new = n"
    and "list_all (\<lambda>r. ms (res_marker r) \<noteq> None) rs"
  shows "\<exists>j. findInsertIndexFrom ms rs n i = Inr (i + j) \<and> j \<le> length rs \<and>
           (\<forall>r \<in> set (take j rs). startsInOrder ms r new) \<and>
           (j < length rs \<longrightarrow> \<not> startsInOrder ms (rs ! j) new)"
  using assms(3)
proof (induction rs arbitrary: i)
  case Nil
  show ?case by simp
next
  case (Cons r rs)
  then obtain rr where rr: "ms (res_marker r) = Some rr" by auto
  show ?case
  proof (cases "isBefore (range_start rn) (range_start rr)")
    case True
    then have "findInsertIndexFrom ms (r # rs) n i = Inr (i + 0)"
      by (simp add: getStart_def assms(1) rr)
    moreover have "\<not> startsInOrder ms r new"
      using True by (simp add: startsInOrder_def assms rr)
    ultimately show ?thesis
      by (intro exI [of _ 0]) simp
  next
    case False
    from Cons.prems have "list_all (\<lambda>r. ms (res_marker r) \<noteq> None) rs" by simp
    from Cons.IH [OF this, of "Suc i"]
    obtain j where j: "findInsertIndexFrom ms rs n (Suc i) = Inr (Suc i + j)"
      "j \<le> length rs" "\<forall>r \<in> set (take j rs). startsInOrder ms r new"
      "j < length rs \<longrightarrow> \<not> startsInOrder ms (rs ! j) new"
      by blast
    have "findInsertIndexFrom ms (r # rs) n i = Inr (i + Suc j)"
      using False j(1) by (simp add: getStart_def assms(1) rr)
    moreover have "startsInOrder ms r new"
      using False by (simp add: startsInOrder_def assms rr)
    ultimately show ?thesis
      using j by (intro exI [of _ "Suc j"]) simp
  qed
qed

lemma startsInOrder_after_found:
  assumes srt: "sorted_wrt (startsInOrder ms) (x # ys)"
    and nx: "\<not> startsInOrder ms x new"
    and live: "ms (res_marker x) \<noteq> None" "ms (res_marker new) \<noteq> None"
      "list_all (\<lambda>r. ms (res_marker r) \<noteq> None) ys"
  shows "\<forall>y \<in> set (x # ys). startsInOrder ms new y"
proof -
  obtain rx rn where rx: "ms (res_marker x) = Some rx" and rn: "ms (res_marker new) = Some rn"
    using live by auto
  from nx have b: "isBefore (range_start rn) (range_start rx)"
    by (simp add: startsInOrder_def rx rn)
  have "startsInOrder ms new x"
    using b by (simp add: startsInOrder_def rx rn isBefore_asym)
  moreover have "startsInOrder ms new y" if "y \<in> set ys" for y
  proof -
    from live(3) that obtain ry where ry: "ms (res_marker y) = Some ry"
      by (auto simp: list_all_iff)
    from srt that have "startsInOrder ms x y" by simp
    then have "\<not> isBefore (range_start ry) (range_start rx)"
      by (simp add: startsInOrder_def rx ry)
    with b have "\<not> isBefore (range_start ry) (range_start rn)"
      using isBefore_trans by blast
    then show ?thesis by (simp add: startsInOrder_def rn ry)
  qed
  ultimately show ?thesis by simp
qed

lemma sorted_insert_at:
  assumes srt: "sorted_wrt (startsInOrder ms) rs"
    and live: "list_all (\<lambda>r. ms (res_marker r) \<noteq> None) rs" "ms (res_marker new) \<noteq> None"
    and j: "j \<le> length rs" "\<forall>r \<in> set (take j rs). startsInOrder ms r new"
      "j < length rs \<longrightarrow> \<not> startsInOrder ms (rs ! j) new"
  shows "sorted_wrt (startsInOrder ms) (take j rs @ new # drop j rs)"
proof -
  have split: "rs = take j rs @ drop j rs" by simp
  from srt have s1: "sorted_wrt (startsInOrder ms) (take j rs)"
    and s2: "sorted_wrt (startsInOrder ms) (drop j rs)"
    and cross: "\<forall>x \<in> set (take j rs). \<forall>y \<in> set (drop j rs). startsInOrder ms x y"
    using sorted_wrt_append [of "startsInOrder ms" "take j rs" "drop j rs"] by simp_all
  have after: "\<forall>y \<in> set (drop j rs). startsInOrder ms new y"
  proof (cases "j < length rs")
    case False
    then show ?thesis by simp
  next
    case True
    then have d: "drop j rs = rs ! j # drop (Suc j) rs"
      by (simp add: Cons_nth_drop_Suc)
    have l1: "ms (res_marker (rs ! j)) \<noteq> None"
      using live(1) True by (simp add: list_all_length)
    have l2: "list_all (\<lambda>r. ms (res_marker r) \<noteq> None) (drop (Suc j) rs)"
      using live(1) by (auto simp: list_all_iff dest: in_set_dropD)
    show ?thesis
      using startsInOrder_after_found [of ms "rs ! j" "drop (Suc j) rs" new]
        s2 j(3) True l1 l2 live(2)
      by (simp add: d)
  qed
  show ?thesis
    using s1 s2 cross after j(2) by (simp add: sorted_wrt_append)
qed

lemma startsInOrder_fresh:
  assumes "res_marker a \<noteq> n" and "res_marker b \<noteq> n"
  shows "startsInOrder (ms(n \<mapsto> r)) a b = startsInOrder ms a b"
  using assms by (simp add: startsInOrder_def split: option.splits)

lemma storeSorted_fresh:
  assumes "storeSorted ms rs" and "ms n = None"
  shows "storeSorted (ms(n \<mapsto> r)) rs"
proof -
  from assms have ne: "\<forall>x \<in> set rs. res_marker x \<noteq> n"
    by (auto simp: storeSorted_def list_all_iff)
  have "sorted_wrt (startsInOrder (ms(n \<mapsto> r))) rs"
  proof (rule sorted_wrt_mono_rel [of rs "startsInOrder ms"])
    show "sorted_wrt (startsInOrder ms) rs"
      using assms(1) by (simp add: storeSorted_def)
  next
    fix x y
    assume "x \<in> set rs" "y \<in> set rs" "startsInOrder ms x y"
    with ne show "startsInOrder (ms(n \<mapsto> r)) x y"
      by (simp add: startsInOrder_fresh)
  qed
  moreover have "list_all (\<lambda>x. (ms(n \<mapsto> r)) (res_marker x) \<noteq> None) rs"
    using assms(1) by (auto simp: storeSorted_def list_all_iff)
  ultimately show ?thesis by (simp add: storeSorted_def)
qed

lemma markersOf_logEvent [simp]: "markersOf (logEvent e st) = markersOf st"
  and resultsOf_logEvent [simp]: "resultsOf (logEvent e st) = resultsOf st"
  and uidCount_logEvent [simp]: "uidCount (logEvent e st) = uidCount st"
  and journal_logEvent [simp]: "journal (logEvent e st) = journal st @ [e]"
  by (simp_all add: logEvent_def)

lemma modelChange_Inr:
  "modelChange f st = Inr st' \<Longrightarrow>
   \<exists>s1. f (logEvent ChangeBegin st) = Inr s1 \<and> st' = logEvent ChangeEnd s1"
  by (auto simp: modelChange_def split: sum.splits)

lemma storeSorted_insert:
  assumes srt: "storeSorted ms rs" and fresh: "ms n = None"
    and idx: "findInsertIndex (ms(n \<mapsto> r)) rs n = Inr k"
    and new: "res_marker new = n"
  shows "k \<le> length rs \<and> storeSorted (ms(n \<mapsto> r)) (take k rs @ new # drop k rs)"
proof -
  let ?ms = "ms(n \<mapsto> r)"
  have s': "storeSorted ?ms rs" using srt fresh by (rule storeSorted_fresh)
  then have live: "list_all (\<lambda>x. ?ms (res_marker x) \<noteq> None) rs"
    and sw: "sorted_wrt (startsInOrder ?ms) rs"
    by (simp_all add: storeSorted_def)
  from findInsertIndexFrom_spec [of ?ms n r new rs 0] new live
  obtain j where j: "findInsertIndexFrom ?ms rs n 0 = Inr (0 + j)" "j \<le> length rs"
      "\<forall>x \<in> set (take j rs). startsInOrder ?ms x new"
      "j < length rs \<longrightarrow> \<not> startsInOrder ?ms (rs ! j) new"
    by auto
  with idx have kj: "k = j" by (simp add: findInsertIndex_def)
  have ln: "?ms (res_marker new) \<noteq> None" by (simp add: new)
  have "sorted_wrt (startsInOrder ?ms) (take j rs @ new # drop j rs)"
    using sw live ln j(2,3,4) by (rule sorted_insert_at)
  moreover have "list_all (\<lambda>x. ?ms (res_marker x) \<noteq> None) (take j rs @ new # drop j rs)"
  proof -
    have "set (take j rs) \<subseteq> set rs" "set (drop j rs) \<subseteq> set rs"
      by (simp_all add: set_take_subset set_drop_subset)
    with live ln show ?thesis
      unfolding list_all_iff by (metis UnE insertE list.simps(15) set_append subsetD)
  qed
  ultimately show ?thesis
    using kj j(2) by (simp add: storeSorted_def)
qed

lemma addFoundItem_sorted:
  assumes "storeSorted (markersOf st) (resultsOf st)"
    and "addFoundItem H item foundItem st = Inr st'"
  shows "storeSorted (markersOf st') (resultsOf st')"
proof -
  let ?n = "''findResult:'' @ uid H (uidCount st)"
  let ?r = "\<lparr> range_start = createPositionAt item (found_start foundItem),
              range_end = createPositionAt item (found_end foundItem) \<rparr>"
  let ?new = "\<lparr> res_id = ?n, res_label = found_label foundItem, res_marker = ?n \<rparr>"
  from assms(2) have fresh: "markersOf st ?n = None"
    by (auto simp: addFoundItem_def Let_def writer_addMarker_def split: if_splits)
  from assms(2) fresh obtain k where
    k: "findInsertIndex ((markersOf st)(?n \<mapsto> ?r)) (resultsOf st) ?n = Inr k"
    and st': "markersOf st' = (markersOf st)(?n \<mapsto> ?r)"
      "resultsOf st' = take k (resultsOf st) @ ?new # drop k (resultsOf st)"
    by (auto simp: addFoundItem_def Let_def writer_addMarker_def results_add_def
        collection_add_def split: sum.splits if_splits)
  from storeSorted_insert [OF assms(1) fresh k, of ?new] st'
  show ?thesis by simp
qed

lemma addFoundItems_sorted:
  "storeSorted (markersOf st) (resultsOf st) \<Longrightarrow>
   addFoundItems H item foundItems st = Inr st' \<Longrightarrow>
   storeSorted (markersOf st') (resultsOf st')"
proof (induction foundItems arbitrary: st)
  case Nil
  then show ?case by simp
next
  case (Cons f fs)
  from Cons.prems(2) obtain s1 where
    s1: "modelChange (addFoundItem H item f) st = Inr s1" "addFoundItems H item fs s1 = Inr st'"
    by (auto split: sum.splits)
  from modelChange_Inr [OF s1(1)] obtain s0 where
    s0: "addFoundItem H item f (logEvent ChangeBegin st) = Inr s0" "s1 = logEvent ChangeEnd s0"
    by blast
  have "storeSorted (markersOf s0) (resultsOf s0)"
    using addFoundItem_sorted [OF _ s0(1)] Cons.prems(1) by simp
  then have "storeSorted (markersOf s1) (resultsOf s1)"
    by (simp add: s0(2))
  then show ?case using Cons.IH s1(2) by blast
qed

lemma updateFindResultFromValues_sorted:
  "storeSorted (markersOf st) (resultsOf st) \<Longrightarrow>
   updateFindResultFromValues H findCallback vs st = Inr st' \<Longrightarrow>
   storeSorted (markersOf st') (resultsOf st')"
proof (induction H findCallback vs st rule: updateFindResultFromValues.induct)
  case (1 H findCallback st)
  then show ?case by simp
next
  case (2 H findCallback item vs st)
  then show ?case
    by (auto split: if_splits option.splits sum.splits dest: addFoundItems_sorted)
next
  case (3 H findCallback item vs st)
  then show ?case by simp
next
  case (4 H findCallback d vs st)
  then show ?case by simp
qed

text \<open>
  C3. Every insertion that \<open>updateFindResultFromRange\<close> makes goes through
  \<open>findInsertIndex\<close>, and the result store stays in order: if no result stood after one
  whose marker starts later before the call, none does after it, however many results
  the call inserts and wherever their markers start.
\<close>

theorem updateFindResultFromRange_sorted:
  assumes "storeSorted (markersOf st) (resultsOf st)"
    and "updateFindResultFromRange H findCallback r st = Inr st'"
  shows "storeSorted (markersOf st') (resultsOf st')"
  using assms
  by (auto simp: updateFindResultFromRange_def dest: updateFindResultFromValues_sorted)

section \<open>The worked scenario, evaluated\<close>

lemma sampleHost_simps:
  "schema_isInline sampleHost n = (case n of None \<Rightarrow> Inl TypeError | Some k \<Rightarrow> Inr False)"
  "schema_checkChild_text sampleHost e = (el_name e = ''paragraph'')"
  "getChanges sampleHost =
         [\<lparr> ch_name = Some ''$text'', ch_type = ''insert'',
            ch_position = \<lparr> pos_root = ''main'', pos_path = [0, 3] \<rparr>,
            ch_parent = 0, ch_nodeAfter = None \<rparr>]"
  "getChangedMarkers sampleHost =
         [\<lparr> cm_name = ''findResult:gone'', cm_newRange = Some (inGraveyardAt 0 0 3) \<rparr>]"
  "getMarkersAtPosition sampleHost ms p = []"
  "getMarkersIntersectingRange sampleHost ms r =
     filter (\<lambda>n. case ms n of None \<Rightarrow> False | Some q \<Rightarrow> sameBlock q r)
                    [''findResult:first'', ''findResult:second'', ''findResult:gone'']"
  "createRangeIn sampleHost n =
     (case n of None \<Rightarrow> Inl TypeError | Some k \<Rightarrow> Inr (inParagraph k 0 4))"
  "createRangeOn sampleHost n =
         (case n of
                 None \<Rightarrow> Inl TypeError
               | Some k \<Rightarrow>
                   Inr \<lparr> range_start = \<lparr> pos_root = ''main'', pos_path = [k] \<rparr>,
                         range_end = \<lparr> pos_root = ''main'', pos_path = [Suc k] \<rparr> \<rparr>)"
  "rangeValues sampleHost r =
     [ElementStart (paragraphAt 0 (utf16 ''foo!'')), TextValue (utf16 ''foo!''),
                ElementEnd (paragraphAt 0 (utf16 ''foo!''))]"
  "uid sampleHost k = replicate (Suc k) (CHR ''u'')"
  by (simp_all add: sampleHost_def)

lemmas sample_simps = sampleHost_simps sampleState_def sampleResult_def searchFoo_def
  paragraphAt_def inParagraph_def inGraveyardAt_def sameBlock_def

lemmas engine_defs = invalidate_new_def invalidate_legacy_def collectInvalidated_new_def
  collectInvalidated_legacy_def modelChange_def logEvent_def setAdd_def
  results_remove_def collection_remove_def collection_has_def writer_removeMarker_def
  inGraveyard_def

lemmas scan_defs = updateFindResultFromRange_def addFoundItem_def writer_addMarker_def
  findInsertIndex_def getStart_def isBefore_def results_add_def collection_add_def
  createPositionAt_def rangeToText_def maxOffset_def
  findByTextCallback_def RegExp_igu_def dotChar_def syntaxCharacters_def
  matchAll_def regexpMatchToFindResult_def utf16_def isLeadSurrogate_def
  isTrailSurrogate_def matchAllFrom.simps foldBasicLatin_def

lemma sample_invalidate_new:
  "invalidate_new sampleHost sampleState = Inr ([Some 0], sampleAfter)"
  by (simp add: engine_defs sample_simps sampleAfter_def fun_eq_iff)

lemma sample_invalidate_legacy:
  "invalidate_legacy sampleHost sampleState = Inr ([Some 0], sampleAfter)"
  by (simp add: engine_defs sample_simps sampleAfter_def fun_eq_iff)

lemma sample_update:
  "updateFindResultFromRange sampleHost searchFoo r sampleAfter = Inr sampleRescanned"
  by (simp add: engine_defs scan_defs sample_simps sampleAfter_def sampleRescanned_def
      fun_eq_iff Let_def)

lemma sample_sorted_before: "storeSorted (markersOf sampleAfter) (resultsOf sampleAfter)"
  by (simp add: storeSorted_def startsInOrder_def sampleAfter_def sample_simps isBefore_def)

lemma sample_onDocumentChange_legacy:
  "onDocumentChange_legacy sampleHost searchFoo sampleState = Inr sampleRescanned"
  by (simp add: onDocumentChange_legacy_def sample_invalidate_legacy sampleHost_simps
      sample_update)

text \<open>
  C3 at work: the store holds the result of the second paragraph; the search of the
  range on the first paragraph finds a match that starts earlier, and it is inserted
  in front.
\<close>

theorem updateFindResultFromRange_sorted_witness:
  "storeSorted (markersOf sampleAfter) (resultsOf sampleAfter)
   \<and> createRangeOn sampleHost (Some 0) = Inr (onParagraph 0)
   \<and> updateFindResultFromRange sampleHost searchFoo (onParagraph 0) sampleAfter =
       Inr sampleRescanned
   \<and> map res_id (resultsOf sampleAfter) = [''findResult:second'']
   \<and> map res_id (resultsOf sampleRescanned) = [''findResult:u'', ''findResult:second'']
   \<and> storeSorted (markersOf sampleRescanned) (resultsOf sampleRescanned)"
  using sample_sorted_before sample_update [of "onParagraph 0"]
    updateFindResultFromRange_sorted [OF sample_sorted_before sample_update [of "onParagraph 0"]]
  by (simp add: sampleAfter_def sampleRescanned_def sampleResult_def sampleHost_simps
      onParagraph_def)

section \<open>Properties of the reaction to document changes\<close>

lemma set_foldl_setAdd: "set (foldl setAdd acc xs) = set acc \<union> set xs"
  by (induction xs arbitrary: acc) (auto simp: setAdd_def)

lemma collectGraveyard_new_set:
  "collectGraveyard_new cms acc = Inr names \<Longrightarrow>
   set names = set acc \<union> cm_name ` {m \<in> set cms. inGraveyard m}"
proof (induction cms arbitrary: acc)
  case Nil
  then show ?case by simp
next
  case (Cons m cms)
  then show ?case
    by (cases "inGraveyard m") (auto simp: setAdd_def split: if_splits)
qed

lemma collectGraveyard_legacy_new:
  "collectGraveyard_legacy cms acc = Inr names \<Longrightarrow> collectGraveyard_new cms acc = Inr names"
proof (induction cms arbitrary: acc)
  case Nil
  then show ?case by simp
next
  case (Cons m cms)
  then show ?case
    by (cases "cm_newRange m") (auto simp: inGraveyard_def split: if_splits)
qed

lemma collectIntersecting_mono:
  "collectIntersecting H ms nodes acc = Inr names \<Longrightarrow> set acc \<subseteq> set names"
proof (induction nodes arbitrary: acc)
  case Nil
  then show ?case by simp
next
  case (Cons node nodes)
  from Cons.prems obtain r where
    "collectIntersecting H ms nodes (foldl setAdd acc (getMarkersIntersectingRange H ms r)) = Inr names"
    by (auto split: sum.splits)
  from Cons.IH [OF this] show ?case
    by (simp add: set_foldl_setAdd)
qed

lemma collectInvalidated_legacy_new:
  "collectInvalidated_legacy H ms = Inr x \<Longrightarrow> collectInvalidated_new H ms = Inr x"
  by (auto simp: collectInvalidated_legacy_def collectInvalidated_new_def
      split: sum.splits prod.splits dest: collectGraveyard_legacy_new)

lemma collectInvalidated_new_graveyard:
  assumes "collectInvalidated_new H ms = Inr (changedNodes, names)"
    and "m \<in> set (getChangedMarkers H)" and "inGraveyard m"
  shows "cm_name m \<in> set names"
proof -
  from assms(1) obtain removed1 removed2 where
    g: "collectGraveyard_new (getChangedMarkers H) removed1 = Inr removed2"
    and i: "collectIntersecting H ms changedNodes removed2 = Inr names"
    by (auto simp: collectInvalidated_new_def split: sum.splits prod.splits)
  from collectGraveyard_new_set [OF g] assms(2,3) have "cm_name m \<in> set removed2" by auto
  with collectIntersecting_mono [OF i] show ?thesis by auto
qed

lemma removeInvalidated_legacy_new:
  "removeInvalidated_legacy names st = Inr st' \<Longrightarrow> removeInvalidated_new names st = Inr st'"
proof (induction names arbitrary: st)
  case Nil
  then show ?case by simp
next
  case (Cons n names)
  from Cons.prems obtain st1 st2 where
    s: "results_remove n st = Inr st1" "writer_removeMarker n st1 = Inr st2"
      "removeInvalidated_legacy names st2 = Inr st'"
    by (auto split: sum.splits)
  from s(1) have "collection_has (resultsOf st) n"
    by (auto simp: results_remove_def collection_remove_def split: if_splits)
  with s Cons.IH show ?case by simp
qed

lemma removalEvents_filter:
  "n \<noteq> k \<Longrightarrow> removalEvents (filter (\<lambda>r. res_id r \<noteq> k) rs) n = removalEvents rs n"
  by (auto simp: removalEvents_def collection_has_def)

lemma filter_not_has:
  "\<not> collection_has rs k \<Longrightarrow> filter (\<lambda>r. res_id r \<noteq> k) rs = rs"
  by (induction rs) (auto simp: collection_has_def)

lemma remove_one_new:
  assumes "(if collection_has (resultsOf st) n then results_remove n st else Inr st) = Inr st1"
    and "writer_removeMarker n st1 = Inr st2"
  shows "journal st2 = journal st @ removalEvents (resultsOf st) n"
    and "markersOf st2 = (markersOf st)(n := None)"
    and "resultsOf st2 = filter (\<lambda>r. res_id r \<noteq> n) (resultsOf st)"
    and "uidCount st2 = uidCount st"
    and "markersOf st n \<noteq> None"
  using assms
  by (auto simp: results_remove_def collection_remove_def writer_removeMarker_def
      removalEvents_def logEvent_def filter_not_has split: if_splits)

lemma removeInvalidated_new_spec:
  "removeInvalidated_new names st = Inr st' \<Longrightarrow>
   journal st' = journal st @ concat (map (removalEvents (resultsOf st)) names) \<and>
   (\<forall>k. markersOf st' k = (if k \<in> set names then None else markersOf st k)) \<and>
   resultsOf st' = filter (\<lambda>r. res_id r \<notin> set names) (resultsOf st) \<and>
   uidCount st' = uidCount st \<and>
   (\<forall>k \<in> set names. markersOf st k \<noteq> None) \<and> distinct names"
proof (induction names arbitrary: st)
  case Nil
  then show ?case by simp
next
  case (Cons n names)
  from Cons.prems obtain st1 st2 where
    s1: "(if collection_has (resultsOf st) n then results_remove n st else Inr st) = Inr st1"
    and s2: "writer_removeMarker n st1 = Inr st2"
    and s3: "removeInvalidated_new names st2 = Inr st'"
    by (auto split: sum.splits)
  note one = remove_one_new [OF s1 s2]
  note ih = Cons.IH [OF s3]
  have notin: "n \<notin> set names"
  proof
    assume "n \<in> set names"
    with ih have "markersOf st2 n \<noteq> None" by blast
    with one(2) show False by simp
  qed
  have ev: "map (removalEvents (resultsOf st2)) names = map (removalEvents (resultsOf st)) names"
  proof (rule map_cong [OF refl])
    fix x assume "x \<in> set names"
    with notin have "x \<noteq> n" by auto
    then show "removalEvents (resultsOf st2) x = removalEvents (resultsOf st) x"
      by (simp add: one(3) removalEvents_filter)
  qed
  have "journal st' = journal st @ concat (map (removalEvents (resultsOf st)) (n # names))"
    using ih ev by (simp add: one(1))
  moreover have "\<forall>k. markersOf st' k = (if k \<in> set (n # names) then None else markersOf st k)"
    using ih by (simp add: one(2))
  moreover have "resultsOf st' = filter (\<lambda>r. res_id r \<notin> set (n # names)) (resultsOf st)"
    using ih by (simp add: one(3) conj_commute)
  moreover have "uidCount st' = uidCount st"
    using ih by (simp add: one(4))
  moreover have "\<forall>k \<in> set (n # names). markersOf st k \<noteq> None"
    using ih one(5) notin by (auto simp: one(2) split: if_splits)
  moreover have "distinct (n # names)"
    using ih notin by simp
  ultimately show ?case by blast
qed

lemma resultRemovedFirst_removalEvents:
  "resultRemovedFirst rs (concat (map (removalEvents rs) names))"
proof -
  have "MarkerRemoved (res_id r) \<notin>
          set (takeWhile (\<lambda>e. e \<noteq> ResultRemoved (res_id r)) (concat (map (removalEvents rs) names)))"
    if r: "r \<in> set rs" for r
  proof (induction names)
    case Nil
    show ?case by simp
  next
    case (Cons n names)
    show ?case
    proof (cases "n = res_id r")
      case True
      with r have "collection_has rs n" by (auto simp: collection_has_def)
      with True show ?thesis by (simp add: removalEvents_def)
    next
      case False
      then have "\<forall>e \<in> set (removalEvents rs n). e \<noteq> ResultRemoved (res_id r) \<and> e \<noteq> MarkerRemoved (res_id r)"
        by (auto simp: removalEvents_def)
      then show ?thesis
        using Cons.IH by (auto simp: takeWhile_append2)
    qed
  qed
  then show ?thesis by (simp add: resultRemovedFirst_def list_all_iff)
qed

lemma invalidate_legacy_new:
  "invalidate_legacy H st = Inr x \<Longrightarrow> invalidate_new H st = Inr x"
  by (auto simp: invalidate_legacy_def invalidate_new_def modelChange_def
      split: sum.splits prod.splits
      dest!: collectInvalidated_legacy_new removeInvalidated_legacy_new)

lemma invalidate_new_spec:
  assumes "invalidate_new H st = Inr (changedNodes, st1)"
  obtains names where "collectInvalidated_new H (markersOf st) = Inr (changedNodes, names)"
    and "journal st1 = journal st @ [ChangeBegin] @
           concat (map (removalEvents (resultsOf st)) names) @ [ChangeEnd]"
    and "\<forall>k. markersOf st1 k = (if k \<in> set names then None else markersOf st k)"
    and "resultsOf st1 = filter (\<lambda>r. res_id r \<notin> set names) (resultsOf st)"
    and "\<forall>k \<in> set names. markersOf st k \<noteq> None" and "distinct names"
proof -
  from assms obtain names s0 where
    c: "collectInvalidated_new H (markersOf st) = Inr (changedNodes, names)"
    and r: "removeInvalidated_new names (logEvent ChangeBegin st) = Inr s0"
    and e: "st1 = logEvent ChangeEnd s0"
    by (auto simp: invalidate_new_def modelChange_def split: sum.splits prod.splits)
  from removeInvalidated_new_spec [OF r] e c that show ?thesis
    by (simp add: logEvent_def)
qed

text \<open>
  The invalidation of the new edition completes whenever the collecting completes and
  every collected name is the name of a live marker.
\<close>

lemma distinct_setAdd: "distinct s \<Longrightarrow> distinct (setAdd s x)"
  by (simp add: setAdd_def)

lemma distinct_foldl_setAdd: "distinct acc \<Longrightarrow> distinct (foldl setAdd acc xs)"
  by (induction xs arbitrary: acc) (simp_all add: distinct_setAdd)

lemma collectChanges_distinct:
  "distinct removed \<Longrightarrow> collectChanges H ms changes nodes removed = Inr (nodes', removed') \<Longrightarrow>
   distinct removed'"
proof (induction changes arbitrary: nodes removed)
  case Nil
  then show ?case by simp
next
  case (Cons c cs)
  then show ?case
    by (auto split: sum.splits if_splits intro: distinct_foldl_setAdd)
qed

lemma collectGraveyard_new_distinct:
  "distinct removed \<Longrightarrow> collectGraveyard_new cms removed = Inr removed' \<Longrightarrow> distinct removed'"
proof (induction cms arbitrary: removed)
  case Nil
  then show ?case by simp
next
  case (Cons m cms)
  then show ?case
    by (cases "inGraveyard m") (auto intro: distinct_setAdd)
qed

lemma collectIntersecting_distinct:
  "distinct removed \<Longrightarrow> collectIntersecting H ms nodes removed = Inr removed' \<Longrightarrow>
   distinct removed'"
proof (induction nodes arbitrary: removed)
  case Nil
  then show ?case by simp
next
  case (Cons n ns)
  then show ?case
    by (auto split: sum.splits intro: distinct_foldl_setAdd)
qed

lemma collectInvalidated_new_distinct:
  assumes "collectInvalidated_new H ms = Inr (nodes, names)"
  shows "distinct names"
proof -
  from assms obtain r1 r2 where
    a: "collectChanges H ms (getChanges H) [] [] = Inr (nodes, r1)"
    and b: "collectGraveyard_new (getChangedMarkers H) r1 = Inr r2"
    and c: "collectIntersecting H ms nodes r2 = Inr names"
    by (auto simp: collectInvalidated_new_def split: sum.splits prod.splits)
  from collectChanges_distinct [OF _ a] have "distinct r1" by simp
  from collectGraveyard_new_distinct [OF this b] have "distinct r2" .
  from collectIntersecting_distinct [OF this c] show ?thesis .
qed

lemma removeInvalidated_new_total:
  "distinct names \<Longrightarrow> \<forall>n \<in> set names. markersOf st n \<noteq> None \<Longrightarrow>
   \<exists>st'. removeInvalidated_new names st = Inr st'"
proof (induction names arbitrary: st)
  case Nil
  show ?case by simp
next
  case (Cons n names)
  have "\<exists>st1. (if collection_has (resultsOf st) n then results_remove n st else Inr st) = Inr st1"
    by (simp add: results_remove_def collection_remove_def)
  then obtain st1 where s1:
    "(if collection_has (resultsOf st) n then results_remove n st else Inr st) = Inr st1"
    by blast
  then have m1: "markersOf st1 = markersOf st"
    by (auto simp: results_remove_def collection_remove_def logEvent_def split: if_splits)
  with Cons.prems obtain st2 where s2: "writer_removeMarker n st1 = Inr st2"
    by (auto simp: writer_removeMarker_def)
  then have m2: "markersOf st2 = (markersOf st)(n := None)"
    using m1 by (auto simp: writer_removeMarker_def logEvent_def split: if_splits)
  have "\<forall>k \<in> set names. markersOf st2 k \<noteq> None"
    using Cons.prems by (auto simp: m2)
  with Cons.IH [of st2] Cons.prems obtain st' where "removeInvalidated_new names st2 = Inr st'"
    by auto
  with s1 s2 show ?case by simp
qed

lemma invalidate_new_completes:
  assumes "collectInvalidated_new H (markersOf st) = Inr (changedNodes, names)"
    and "\<forall>n \<in> set names. markersOf st n \<noteq> None"
  shows "\<exists>st1. invalidate_new H st = Inr (changedNodes, st1)"
proof -
  have "distinct names" using assms(1) by (rule collectInvalidated_new_distinct)
  moreover have "\<forall>n \<in> set names. markersOf (logEvent ChangeBegin st) n \<noteq> None"
    using assms(2) by simp
  ultimately obtain s where "removeInvalidated_new names (logEvent ChangeBegin st) = Inr s"
    using removeInvalidated_new_total by blast
  with assms(1) show ?thesis
    by (simp add: invalidate_new_def modelChange_def)
qed

text \<open>
  When the invalidation of the legacy edition completes, the store had a result for
  every marker it collected.
\<close>

lemma removeInvalidated_legacy_has:
  "removeInvalidated_legacy names st = Inr st' \<Longrightarrow>
   \<forall>n \<in> set names. collection_has (resultsOf st) n"
proof (induction names arbitrary: st)
  case Nil
  show ?case by simp
next
  case (Cons n names)
  from Cons.prems obtain st1 st2 where
    s: "results_remove n st = Inr st1" "writer_removeMarker n st1 = Inr st2"
      "removeInvalidated_legacy names st2 = Inr st'"
    by (auto split: sum.splits)
  from s(1) have h: "collection_has (resultsOf st) n"
    and r1: "resultsOf st1 = filter (\<lambda>r. res_id r \<noteq> n) (resultsOf st)"
    by (auto simp: results_remove_def collection_remove_def logEvent_def split: if_splits)
  from s(2) have r2: "resultsOf st2 = resultsOf st1"
    by (auto simp: writer_removeMarker_def logEvent_def split: if_splits)
  from Cons.IH [OF s(3)] have "\<forall>k \<in> set names. collection_has (resultsOf st2) k" .
  then have "\<forall>k \<in> set names. collection_has (resultsOf st) k"
    by (auto simp: r1 r2 collection_has_def)
  with h show ?case by simp
qed

lemma invalidate_legacy_spec:
  assumes "invalidate_legacy H st = Inr (changedNodes, st1)"
  obtains names where "collectInvalidated_legacy H (markersOf st) = Inr (changedNodes, names)"
    and "\<forall>n \<in> set names. collection_has (resultsOf st) n"
proof -
  from assms obtain names s0 where
    c: "collectInvalidated_legacy H (markersOf st) = Inr (changedNodes, names)"
    and r: "removeInvalidated_legacy names (logEvent ChangeBegin st) = Inr s0"
    by (auto simp: invalidate_legacy_def modelChange_def split: sum.splits prod.splits)
  from removeInvalidated_legacy_has [OF r] c that show ?thesis
    by simp
qed

lemma sample_collect_new:
  "collectInvalidated_new sampleHost (markersOf sampleState) =
     Inr ([Some 0], [''findResult:gone'', ''findResult:first''])"
  by (simp add: engine_defs sample_simps)

lemma sample_collect_legacy:
  "collectInvalidated_legacy sampleHost (markersOf sampleState) =
     Inr ([Some 0], [''findResult:gone'', ''findResult:first''])"
  by (simp add: engine_defs sample_simps)

text \<open>
  C6. When the invalidation of either edition completes, the markers it removed are
  the invalidated markers its collecting step returned, each of them once and each of
  them live before. All it did stands in the journal between one \<open>ChangeBegin\<close> and
  one \<open>ChangeEnd\<close>: for every invalidated marker in turn, the removal of its result
  from the store (when the store has one; in the legacy edition it always has) and
  then the removal of the marker. No marker of a stored result is removed before that
  result. Afterwards exactly the invalidated markers are gone from the model and their
  results from the store.
\<close>

theorem invalidate_removes_result_first:
  assumes "invalidate_new H st = Inr (changedNodes, st1) \<or>
           invalidate_legacy H st = Inr (changedNodes, st1)"
  shows "\<exists>names.
           collectInvalidated_new H (markersOf st) = Inr (changedNodes, names) \<and>
           (invalidate_legacy H st = Inr (changedNodes, st1) \<longrightarrow>
              collectInvalidated_legacy H (markersOf st) = Inr (changedNodes, names) \<and>
              (\<forall>n \<in> set names. collection_has (resultsOf st) n)) \<and>
           distinct names \<and>
           (\<forall>n \<in> set names. markersOf st n \<noteq> None) \<and>
           journal st1 = journal st @ [ChangeBegin] @
             concat (map (removalEvents (resultsOf st)) names) @ [ChangeEnd] \<and>
           resultRemovedFirst (resultsOf st) (concat (map (removalEvents (resultsOf st)) names)) \<and>
           (\<forall>k. markersOf st1 k = (if k \<in> set names then None else markersOf st k)) \<and>
           resultsOf st1 = filter (\<lambda>r. res_id r \<notin> set names) (resultsOf st)"
proof -
  from assms have new: "invalidate_new H st = Inr (changedNodes, st1)"
    by (auto dest: invalidate_legacy_new)
  then obtain names where n: "collectInvalidated_new H (markersOf st) = Inr (changedNodes, names)"
    and j: "journal st1 = journal st @ [ChangeBegin] @
           concat (map (removalEvents (resultsOf st)) names) @ [ChangeEnd]"
    and mk: "\<forall>k. markersOf st1 k = (if k \<in> set names then None else markersOf st k)"
    and rs: "resultsOf st1 = filter (\<lambda>r. res_id r \<notin> set names) (resultsOf st)"
    and live: "\<forall>k \<in> set names. markersOf st k \<noteq> None"
    and dist: "distinct names"
    by (rule invalidate_new_spec)
  have legacy: "collectInvalidated_legacy H (markersOf st) = Inr (changedNodes, names) \<and>
              (\<forall>n \<in> set names. collection_has (resultsOf st) n)"
    if l: "invalidate_legacy H st = Inr (changedNodes, st1)"
  proof -
    from l obtain names' where
      c: "collectInvalidated_legacy H (markersOf st) = Inr (changedNodes, names')"
      and h: "\<forall>n \<in> set names'. collection_has (resultsOf st) n"
      by (rule invalidate_legacy_spec)
    from collectInvalidated_legacy_new [OF c] n have "names' = names" by simp
    with c h show ?thesis by simp
  qed
  have first: "resultRemovedFirst (resultsOf st)
                 (concat (map (removalEvents (resultsOf st)) names))"
    by (rule resultRemovedFirst_removalEvents)
  from n legacy dist live j first mk rs show ?thesis by blast
qed

theorem invalidate_removes_result_first_witness:
  "invalidate_new sampleHost sampleState = Inr ([Some 0], sampleAfter)
   \<and> invalidate_legacy sampleHost sampleState = Inr ([Some 0], sampleAfter)
   \<and> collectInvalidated_new sampleHost (markersOf sampleState) =
       Inr ([Some 0], [''findResult:gone'', ''findResult:first''])
   \<and> collectInvalidated_legacy sampleHost (markersOf sampleState) =
       Inr ([Some 0], [''findResult:gone'', ''findResult:first''])
   \<and> journal sampleState = []
   \<and> journal sampleAfter =
       [ChangeBegin,
        ResultRemoved ''findResult:gone'', MarkerRemoved ''findResult:gone'',
        ResultRemoved ''findResult:first'', MarkerRemoved ''findResult:first'',
        ChangeEnd]
   \<and> journal sampleAfter = journal sampleState @ [ChangeBegin] @
         concat (map (removalEvents (resultsOf sampleState))
                   [''findResult:gone'', ''findResult:first'']) @ [ChangeEnd]
   \<and> resultRemovedFirst (resultsOf sampleState)
         (concat (map (removalEvents (resultsOf sampleState))
                   [''findResult:gone'', ''findResult:first'']))
   \<and> markersOf sampleAfter ''findResult:gone'' = None
   \<and> markersOf sampleAfter ''findResult:first'' = None
   \<and> markersOf sampleAfter ''findResult:second'' = markersOf sampleState ''findResult:second''
   \<and> map res_id (resultsOf sampleAfter) = [''findResult:second'']"
proof -
  from invalidate_removes_result_first [OF disjI2 [OF sample_invalidate_legacy]]
  obtain names where
    n: "collectInvalidated_new sampleHost (markersOf sampleState) = Inr ([Some 0], names)"
    and l: "collectInvalidated_legacy sampleHost (markersOf sampleState) = Inr ([Some 0], names)"
    and j: "journal sampleAfter = journal sampleState @ [ChangeBegin] @
             concat (map (removalEvents (resultsOf sampleState)) names) @ [ChangeEnd]"
    and f: "resultRemovedFirst (resultsOf sampleState)
              (concat (map (removalEvents (resultsOf sampleState)) names))"
    and mk: "\<forall>k. markersOf sampleAfter k =
                (if k \<in> set names then None else markersOf sampleState k)"
    and rs: "resultsOf sampleAfter =
               filter (\<lambda>r. res_id r \<notin> set names) (resultsOf sampleState)"
    using sample_invalidate_legacy by blast
  from n sample_collect_new have names: "names = [''findResult:gone'', ''findResult:first'']"
    by simp
  have "map res_id (resultsOf sampleAfter) = [''findResult:second'']"
    by (simp add: rs names sampleState_def sampleResult_def)
  moreover have "journal sampleState = []"
    by (simp add: sampleState_def)
  moreover have "journal sampleAfter =
       [ChangeBegin,
        ResultRemoved ''findResult:gone'', MarkerRemoved ''findResult:gone'',
        ResultRemoved ''findResult:first'', MarkerRemoved ''findResult:first'',
        ChangeEnd]"
    by (simp add: sampleAfter_def)
  ultimately show ?thesis
    using sample_invalidate_new sample_invalidate_legacy n l j f mk
    by (simp add: names)
qed

text \<open>
  When the invalidation of either edition completes, a changed marker whose new range
  starts in the graveyard was among the collected markers, was live before, is removed
  by the invalidation, and the store holds no result of its name.
\<close>

lemma graveyard_marker_removed_on_completion:
  assumes "invalidate_new H st = Inr (changedNodes, st1) \<or>
           invalidate_legacy H st = Inr (changedNodes, st1)"
    and "m \<in> set (getChangedMarkers H)" and "inGraveyard m"
  shows "(\<exists>names. collectInvalidated_new H (markersOf st) = Inr (changedNodes, names) \<and>
            (invalidate_legacy H st = Inr (changedNodes, st1) \<longrightarrow>
               collectInvalidated_legacy H (markersOf st) = Inr (changedNodes, names)) \<and>
            cm_name m \<in> set names) \<and>
         markersOf st (cm_name m) \<noteq> None \<and>
         markersOf st1 (cm_name m) = None \<and>
         \<not> collection_has (resultsOf st1) (cm_name m) \<and>
         MarkerRemoved (cm_name m) \<in> set (drop (length (journal st)) (journal st1))"
proof -
  from assms(1) have "invalidate_new H st = Inr (changedNodes, st1)"
    by (auto dest: invalidate_legacy_new)
  then obtain names where n: "collectInvalidated_new H (markersOf st) = Inr (changedNodes, names)"
    and j: "journal st1 = journal st @ [ChangeBegin] @
           concat (map (removalEvents (resultsOf st)) names) @ [ChangeEnd]"
    and mk: "\<forall>k. markersOf st1 k = (if k \<in> set names then None else markersOf st k)"
    and rs: "resultsOf st1 = filter (\<lambda>r. res_id r \<notin> set names) (resultsOf st)"
    and live: "\<forall>k \<in> set names. markersOf st k \<noteq> None"
    by (rule invalidate_new_spec)
  have leg: "collectInvalidated_legacy H (markersOf st) = Inr (changedNodes, names)"
    if l: "invalidate_legacy H st = Inr (changedNodes, st1)"
  proof -
    from l obtain names' where
      c: "collectInvalidated_legacy H (markersOf st) = Inr (changedNodes, names')"
      by (rule invalidate_legacy_spec)
    from collectInvalidated_legacy_new [OF c] n have "names' = names" by simp
    with c show ?thesis by simp
  qed
  have inn: "cm_name m \<in> set names"
    using collectInvalidated_new_graveyard [OF n assms(2,3)] .
  have "MarkerRemoved (cm_name m) \<in> set (removalEvents (resultsOf st) (cm_name m))"
    by (simp add: removalEvents_def)
  with inn have "MarkerRemoved (cm_name m) \<in> set (concat (map (removalEvents (resultsOf st)) names))"
    by auto
  then have "MarkerRemoved (cm_name m) \<in> set (drop (length (journal st)) (journal st1))"
    by (simp add: j)
  moreover have "\<not> collection_has (resultsOf st1) (cm_name m)"
    using inn by (auto simp: rs collection_has_def)
  ultimately show ?thesis
    using n leg inn mk live by auto
qed

lemma graveyard_marker_removed_sample:
  "invalidate_new sampleHost sampleState = Inr ([Some 0], sampleAfter)
   \<and> invalidate_legacy sampleHost sampleState = Inr ([Some 0], sampleAfter)
   \<and> \<lparr> cm_name = ''findResult:gone'', cm_newRange = Some (inGraveyardAt 0 0 3) \<rparr>
       \<in> set (getChangedMarkers sampleHost)
   \<and> inGraveyard \<lparr> cm_name = ''findResult:gone'', cm_newRange = Some (inGraveyardAt 0 0 3) \<rparr>
   \<and> markersOf sampleState ''findResult:gone'' \<noteq> None
   \<and> markersOf sampleAfter ''findResult:gone'' = None
   \<and> \<not> collection_has (resultsOf sampleAfter) ''findResult:gone''
   \<and> MarkerRemoved ''findResult:gone''
       \<in> set (drop (length (journal sampleState)) (journal sampleAfter))"
proof -
  have m: "\<lparr> cm_name = ''findResult:gone'', cm_newRange = Some (inGraveyardAt 0 0 3) \<rparr>
       \<in> set (getChangedMarkers sampleHost)"
    by (simp add: sampleHost_simps)
  have g: "inGraveyard \<lparr> cm_name = ''findResult:gone'', cm_newRange = Some (inGraveyardAt 0 0 3) \<rparr>"
    by (simp add: inGraveyard_def inGraveyardAt_def)
  from graveyard_marker_removed_on_completion [OF disjI2 [OF sample_invalidate_legacy] m g]
    sample_invalidate_new sample_invalidate_legacy m g
  show ?thesis by simp
qed

text \<open>
  C9 fails on the code, in both editions. The first loop asks the schema about the node
  after the position of every change that is not a change of text, and does not test
  that node for null. On the batch that removes the last block of the root together
  with the result it held, the node is null and the call raises before the loop over
  the changed markers is reached: the marker of that result, whose new range starts in
  the graveyard, is not collected, and neither the marker nor the result is removed.
\<close>

theorem removed_last_block_raises:
  "\<lparr> cm_name = ''findResult:second'', cm_newRange = Some (inGraveyardAt 0 0 3) \<rparr>
       \<in> set (getChangedMarkers lastBlockRemovedHost)
   \<and> inGraveyard \<lparr> cm_name = ''findResult:second'', cm_newRange = Some (inGraveyardAt 0 0 3) \<rparr>
   \<and> markersOf lastBlockRemovedState ''findResult:second'' = Some (inGraveyardAt 0 0 3)
   \<and> collection_has (resultsOf lastBlockRemovedState) ''findResult:second''
   \<and> collectInvalidated_new lastBlockRemovedHost (markersOf lastBlockRemovedState) = Inl TypeError
   \<and> collectInvalidated_legacy lastBlockRemovedHost (markersOf lastBlockRemovedState) = Inl TypeError
   \<and> onDocumentChange_new (updateFindResultFromRange lastBlockRemovedHost) lastBlockRemovedHost
         searchFoo lastBlockRemovedState = Inl TypeError
   \<and> onDocumentChange_legacy lastBlockRemovedHost searchFoo lastBlockRemovedState = Inl TypeError"
  by (simp add: onDocumentChange_new_def onDocumentChange_legacy_def engine_defs
      lastBlockRemovedHost_def lastBlockRemovedState_def sample_simps)

text \<open>
  C10, as the code has it. Whenever the legacy edition completes on a batch of
  changes, the new edition, given the same engine, search callback and state and the
  search function of the legacy edition, completes with the same state: the same
  markers and results removed, the same nodes searched again, the same journal. The
  new edition has two checks the legacy edition lacks.
\<close>

theorem onDocumentChange_new_refines_legacy:
  assumes "onDocumentChange_legacy H searchCallback st = Inr st'"
  shows "onDocumentChange_new (updateFindResultFromRange H) H searchCallback st = Inr st'"
  using assms
  by (auto simp: onDocumentChange_legacy_def onDocumentChange_new_def
      split: sum.splits prod.splits dest!: invalidate_legacy_new)

theorem onDocumentChange_new_refines_legacy_witness:
  "onDocumentChange_legacy sampleHost searchFoo sampleState = Inr sampleRescanned
   \<and> onDocumentChange_new (updateFindResultFromRange sampleHost) sampleHost searchFoo
         sampleState = Inr sampleRescanned"
  using sample_onDocumentChange_legacy
    onDocumentChange_new_refines_legacy [OF sample_onDocumentChange_legacy]
  by simp

text \<open>
  C10 as stated fails: on a batch that reports a removed marker, whose new range is
  null, the legacy edition ends in a type error and the new edition completes.
\<close>

theorem onDocumentChange_editions_differ:
  "onDocumentChange_legacy removedMarkerHost searchFoo sampleState = Inl TypeError
   \<and> onDocumentChange_new (updateFindResultFromRange removedMarkerHost) removedMarkerHost
         searchFoo sampleState = Inr removedMarkerRescanned"
  by (simp add: onDocumentChange_legacy_def onDocumentChange_new_def engine_defs scan_defs
      removedMarkerHost_def sample_simps removedMarkerRescanned_def fun_eq_iff Let_def)

section \<open>Properties of the highlighted result\<close>

lemma isHighlightName_highlightName [simp]: "isHighlightName (highlightName name)"
  by (simp add: isHighlightName_def highlightName_def)

text \<open>
  C8. Take a state in which the only highlight marker that may be live is the one of
  the old highlighted result, and a new highlighted result, if any, whose marker is
  live. Then the listener completes inside a single \<open>model.change\<close>: it removes the
  highlight marker of the old result if that marker is live and does nothing for it
  otherwise, it adds the highlight marker of the new result with exactly the range of
  the new result's marker, and it touches no other marker and no result. Afterwards
  the only highlight marker that may be live is the one of the new result.
\<close>

theorem highlight_marker_follows_result:
  assumes inv: "highlightInvariant oldValue (markersOf st)"
    and live: "case newValue of
                 None \<Rightarrow> True
               | Some new \<Rightarrow> markersOf st (res_marker new) \<noteq> None \<and>
                             \<not> isHighlightName (res_marker new)"
  shows "\<exists>st'. onHighlightedResultChange newValue oldValue st = Inr st' \<and>
           highlightInvariant newValue (markersOf st') \<and>
           (case newValue of
              None \<Rightarrow> True
            | Some new \<Rightarrow>
                markersOf st' (highlightName (res_marker new)) = markersOf st (res_marker new)) \<and>
           (\<forall>name. \<not> isHighlightName name \<longrightarrow> markersOf st' name = markersOf st name) \<and>
           resultsOf st' = resultsOf st \<and>
           journal st' =
             journal st @ [ChangeBegin] @
             (case oldValue of
                None \<Rightarrow> []
              | Some old \<Rightarrow>
                  if markersOf st (highlightName (res_marker old)) \<noteq> None
                  then [MarkerRemoved (highlightName (res_marker old))] else []) @
             (case newValue of
                None \<Rightarrow> []
              | Some new \<Rightarrow> [MarkerAdded (highlightName (res_marker new))]) @
             [ChangeEnd]"
proof -
  let ?st0 = "logEvent ChangeBegin st"
  define st1 where "st1 =
     (case oldValue of
        None \<Rightarrow> ?st0
      | Some old \<Rightarrow>
          if markersOf st (highlightName (res_marker old)) \<noteq> None
          then logEvent (MarkerRemoved (highlightName (res_marker old)))
                 (?st0\<lparr> markersOf := (markersOf st)(highlightName (res_marker old) := None) \<rparr>)
          else ?st0)"
  have step1: "(case oldValue of
               None \<Rightarrow> Inr ?st0
             | Some old \<Rightarrow>
                 (case markersOf ?st0 (highlightName (res_marker old)) of
                    None \<Rightarrow> Inr ?st0
                  | Some oldMarker \<Rightarrow> writer_removeMarker (highlightName (res_marker old)) ?st0)) = Inr st1"
    by (auto simp: st1_def writer_removeMarker_def logEvent_def split: option.splits)
  have none1: "\<forall>name. isHighlightName name \<longrightarrow> markersOf st1 name = None"
    using inv
    by (auto simp: st1_def highlightInvariant_def logEvent_def split: option.splits)
  have same1: "\<forall>name. \<not> isHighlightName name \<longrightarrow> markersOf st1 name = markersOf st name"
    by (auto simp: st1_def logEvent_def split: option.splits)
  have res1: "resultsOf st1 = resultsOf st"
    by (auto simp: st1_def logEvent_def split: option.splits)
  have j1: "journal st1 = journal st @ [ChangeBegin] @
             (case oldValue of
                None \<Rightarrow> []
              | Some old \<Rightarrow>
                  if markersOf st (highlightName (res_marker old)) \<noteq> None
                  then [MarkerRemoved (highlightName (res_marker old))] else [])"
    by (auto simp: st1_def logEvent_def split: option.splits)
  show ?thesis
  proof (cases newValue)
    case None
    have "onHighlightedResultChange newValue oldValue st = Inr (logEvent ChangeEnd st1)"
      using step1 by (simp add: onHighlightedResultChange_def modelChange_def None)
    then show ?thesis
      using none1 same1 res1 j1 by (simp add: None highlightInvariant_def)
  next
    case (Some new)
    with live obtain r where r: "markersOf st (res_marker new) = Some r"
      and nh: "\<not> isHighlightName (res_marker new)" by auto
    have r1: "markersOf st1 (res_marker new) = Some r"
      using same1 nh r by simp
    have free: "markersOf st1 (highlightName (res_marker new)) = None"
      using none1 by simp
    define st2 where "st2 = logEvent (MarkerAdded (highlightName (res_marker new)))
                     (st1\<lparr> markersOf := (markersOf st1)(highlightName (res_marker new) \<mapsto> r) \<rparr>)"
    have "onHighlightedResultChange newValue oldValue st = Inr (logEvent ChangeEnd st2)"
      using step1 r1 free
      by (simp add: onHighlightedResultChange_def modelChange_def Some getRange_def
          writer_addMarker_def st2_def)
    moreover have "highlightInvariant newValue (markersOf (logEvent ChangeEnd st2))"
      using none1 by (auto simp: highlightInvariant_def st2_def logEvent_def Some)
    moreover have "markersOf (logEvent ChangeEnd st2) (highlightName (res_marker new)) =
                   markersOf st (res_marker new)"
      by (simp add: st2_def logEvent_def r)
    moreover have "\<forall>name. \<not> isHighlightName name \<longrightarrow>
                      markersOf (logEvent ChangeEnd st2) name = markersOf st name"
      using same1 by (auto simp: st2_def logEvent_def)
    moreover have "resultsOf (logEvent ChangeEnd st2) = resultsOf st"
      using res1 by (simp add: st2_def logEvent_def)
    moreover have "journal (logEvent ChangeEnd st2) = journal st1 @
          [MarkerAdded (highlightName (res_marker new)), ChangeEnd]"
      by (simp add: st2_def logEvent_def)
    ultimately show ?thesis
      using j1 by (simp add: Some)
  qed
qed

theorem highlight_marker_follows_result_witness:
  "highlightInvariant (Some (sampleResult ''findResult:first'')) (markersOf sampleHighlighted)
   \<and> markersOf sampleHighlighted ''findResult:second'' = Some (inParagraph 1 0 3)
   \<and> \<not> isHighlightName ''findResult:second''
   \<and> onHighlightedResultChange (Some (sampleResult ''findResult:second''))
         (Some (sampleResult ''findResult:first'')) sampleHighlighted =
       Inr sampleHighlightMoved
   \<and> highlightInvariant (Some (sampleResult ''findResult:second''))
         (markersOf sampleHighlightMoved)
   \<and> markersOf sampleHighlightMoved ''findResultHighlighted:second'' = Some (inParagraph 1 0 3)
   \<and> markersOf sampleHighlightMoved ''findResultHighlighted:first'' = None"
proof -
  have inv: "highlightInvariant (Some (sampleResult ''findResult:first''))
               (markersOf sampleHighlighted)"
    by (auto simp: highlightInvariant_def sampleHighlighted_def sampleResult_def
        highlightName_def matchId_def isHighlightName_def split: if_splits)
  have live: "case Some (sampleResult ''findResult:second'') of
                 None \<Rightarrow> True
               | Some new \<Rightarrow> markersOf sampleHighlighted (res_marker new) \<noteq> None \<and>
                             \<not> isHighlightName (res_marker new)"
    by (simp add: sampleHighlighted_def sampleResult_def isHighlightName_def)
  have ev: "onHighlightedResultChange (Some (sampleResult ''findResult:second''))
         (Some (sampleResult ''findResult:first'')) sampleHighlighted =
       Inr sampleHighlightMoved"
    by (simp add: onHighlightedResultChange_def modelChange_def logEvent_def
        writer_removeMarker_def writer_addMarker_def getRange_def highlightName_def
        matchId_def sampleHighlighted_def sampleHighlightMoved_def sampleResult_def
        fun_eq_iff)
  from highlight_marker_follows_result [OF inv live] ev
  have "highlightInvariant (Some (sampleResult ''findResult:second''))
         (markersOf sampleHighlightMoved)"
    by auto
  with inv ev show ?thesis
    by (simp add: sampleHighlighted_def sampleHighlightMoved_def isHighlightName_def)
qed

section \<open>Properties of replacing\<close>

text \<open>
  C7, as the code has it. With no active search, \<open>replaceAll\<close> returns at its null
  check, without an error and with the editor as it was. \<open>replace\<close> has no such check
  and does not read \<open>activeResults\<close>: it replaces the content that the marker of the
  given result spans, and it ends in an error only when that marker is gone.
\<close>

theorem replaceAll_guarded_replace_not:
  "(activeResults ed = None \<longrightarrow> replaceAll ins ed textOrCallback = Inr ed) \<and>
   replace ins ed result textOrCallback =
     (case ed_markers ed (res_marker result) of
        None \<Rightarrow> Inl MarkerDestroyed
      | Some r \<Rightarrow>
          Inr (ed\<lparr> ed_document :=
                     fst (ins (ed_document ed) (ed_markers ed) (contentOf textOrCallback) r),
                   ed_markers :=
                     snd (ins (ed_document ed) (ed_markers ed) (contentOf textOrCallback) r) \<rparr>))"
  by (cases textOrCallback)
     (auto simp: replaceAll_def replace_def getRange_def contentOf_def getDefaultCallback_def
       split: option.splits prod.splits)

theorem replaceAll_guarded_replace_not_witness:
  "activeResults sampleEditor = None
   \<and> replaceAll insertContent_flat sampleEditor (TextArg (utf16 ''new'')) = Inr sampleEditor"
proof -
  have h: "activeResults sampleEditor = None"
    by (simp add: sampleEditor_def)
  from replaceAll_guarded_replace_not
         [of sampleEditor insertContent_flat "TextArg (utf16 ''new'')", THEN conjunct1] h
  show ?thesis by simp
qed

text \<open>
  C7 as stated fails for \<open>replace\<close>: with no active search it replaces the second
  word of the paragraph all the same.
\<close>

theorem replace_without_session_replaces:
  "activeResults sampleEditor = None
   \<and> ed_document sampleEditor = utf16 ''foo foo''
   \<and> replace insertContent_flat sampleEditor
         \<lparr> res_id = ''my-marker-id'', res_label = utf16 ''foo'', res_marker = ''my-marker-id'' \<rparr>
         (TextArg (utf16 ''new''))
       = Inr (sampleEditor\<lparr> ed_document := utf16 ''foo new'' \<rparr>)
   \<and> replace insertContent_flat sampleEditor
         \<lparr> res_id = ''my-marker-id'', res_label = utf16 ''foo'', res_marker = ''my-marker-id'' \<rparr>
         (TextArg (utf16 ''new''))
       \<noteq> Inr sampleEditor"
  by (simp add: replace_def getRange_def getDefaultCallback_def insertContent_flat_def
      offsetOf_def sampleEditor_def inParagraph_def utf16_def)

end
